theory Spec2Isabelle
  imports Complex_Main
begin

section \<open>The rollout worker of RLgraph (\<^verbatim>\<open>rlgraph/execution/ray/ray_worker.py\<close>)\<close>

text \<open>
  A shallow embedding of \<^verbatim>\<open>RayWorker\<close>. Python floats are idealised as \<^typ>\<open>real\<close>
  (no rounding); where a non-finite float matters (the per-item loss and the priority
  weights) the type \<open>npfloat\<close> below keeps \<^verbatim>\<open>inf\<close>, \<^verbatim>\<open>-inf\<close> and \<^verbatim>\<open>nan\<close> apart.
  Python ints are \<^typ>\<open>int\<close>. Exceptions are values of type \<open>error\<close>, a call that
  raises returns \<open>Inl\<close>.
\<close>

subsection \<open>Errors, list access\<close>

datatype error = IndexError | ValueError | ZeroDivisionError

definition bind_e :: "error + 'a \<Rightarrow> ('a \<Rightarrow> error + 'b) \<Rightarrow> error + 'b" where
  "bind_e m f = (case m of Inl e \<Rightarrow> Inl e | Inr x \<Rightarrow> f x)"

text \<open>\<^verbatim>\<open>xs[i]\<close> for a non-negative index: raises IndexError out of range.\<close>

definition index :: "'a list \<Rightarrow> nat \<Rightarrow> error + 'a" where
  "index xs i = (if i < length xs then Inr (xs ! i) else Inl IndexError)"

text \<open>\<^verbatim>\<open>xs[i] = v\<close> for a non-negative index: raises IndexError out of range.\<close>

definition assign :: "'a list \<Rightarrow> nat \<Rightarrow> 'a \<Rightarrow> error + 'a list" where
  "assign xs i v = (if i < length xs then Inr (xs[i := v]) else Inl IndexError)"

text \<open>
  \<^verbatim>\<open>del arr[n:]\<close>: a negative \<^verbatim>\<open>n\<close> counts from the end of the list, and the slice bounds
  are clipped to the list.
\<close>

definition del_from :: "'a list \<Rightarrow> int \<Rightarrow> 'a list" where
  "del_from arr n = take (nat (if n < 0 then int (length arr) + n else n)) arr"

subsection \<open>The sample batch: five parallel lists\<close>

record ('s, 'a) batch =
  states :: "'s list"
  actions :: "'a list"
  rewards :: "real list"
  next_states :: "'s list"
  terminals :: "bool list"

text \<open>The batch as \<^verbatim>\<open>execute_and_get_timesteps\<close> assembles it: five lists of one length.\<close>

definition wf_batch :: "('s, 'a) batch \<Rightarrow> bool" where
  "wf_batch b \<longleftrightarrow>
     length (actions b) = length (states b) \<and> length (rewards b) = length (states b) \<and>
     length (next_states b) = length (states b) \<and> length (terminals b) = length (states b)"

subsection \<open>The n-step adjustment of \<^verbatim>\<open>_process_sample_if_necessary\<close>\<close>

text \<open>
  \<^verbatim>\<open>for j in range_(1, self.n_step_adjustment):\<close> with the lists \<^verbatim>\<open>rewards\<close> and
  \<^verbatim>\<open>next_states\<close> mutated in place; the list argument is the rest of the range, a
  \<^verbatim>\<open>break\<close> returns at once.
\<close>

fun n_step_inner ::
  "real \<Rightarrow> bool list \<Rightarrow> nat \<Rightarrow> nat list \<Rightarrow> real list \<times> 's list \<Rightarrow> error + (real list \<times> 's list)"
where
  "n_step_inner gamma ts i [] (rs, ns) = Inr (rs, ns)"
| "n_step_inner gamma ts i (j # js) (rs, ns) =
     bind_e (index ns (i + j)) (\<lambda>n_ij.
     bind_e (assign ns i n_ij) (\<lambda>ns'.
     bind_e (index rs i) (\<lambda>r_i.
     bind_e (index rs (i + j)) (\<lambda>r_ij.
     bind_e (assign rs i (r_i + gamma ^ j * r_ij)) (\<lambda>rs'.
     bind_e (index ts (i + j)) (\<lambda>t_ij.
       if t_ij then Inr (rs', ns')
       else n_step_inner gamma ts i js (rs', ns')))))))"

text \<open>
  \<^verbatim>\<open>for i in range_(len(rewards) - self.n_step_adjustment + 1):\<close>, a terminal index is
  skipped (\<^verbatim>\<open>continue\<close>).
\<close>

fun n_step_outer ::
  "real \<Rightarrow> nat \<Rightarrow> bool list \<Rightarrow> nat list \<Rightarrow> real list \<times> 's list \<Rightarrow> error + (real list \<times> 's list)"
where
  "n_step_outer gamma k ts [] st = Inr st"
| "n_step_outer gamma k ts (i # is) st =
     bind_e (index ts i) (\<lambda>t_i.
       if t_i then n_step_outer gamma k ts is st
       else bind_e (n_step_inner gamma ts i [1..<k] st)
              (\<lambda>st'. n_step_outer gamma k ts is st'))"

text \<open>The block under \<^verbatim>\<open>if self.n_step_adjustment > 1:\<close>, with the truncation.\<close>

definition n_step_adjuster :: "int \<Rightarrow> real \<Rightarrow> ('s, 'a) batch \<Rightarrow> error + ('s, 'a) batch" where
  "n_step_adjuster k gamma b =
     (if 1 < k then
        bind_e (n_step_outer gamma (nat k) (terminals b)
                  [0..<nat (int (length (rewards b)) - k + 1)] (rewards b, next_states b))
          (\<lambda>(rs', ns').
             let new_len = int (length (states b)) - k + 1
             in Inr \<lparr>states = del_from (states b) new_len,
                     actions = del_from (actions b) new_len,
                     rewards = del_from rs' new_len,
                     next_states = del_from ns' new_len,
                     terminals = del_from (terminals b) new_len\<rparr>)
      else Inr b)"

text \<open>
  The closed form of one window, used to state what the loops compute: the discounted sum
  over the window positions \<open>js\<close> from index \<open>i\<close> up to the first terminal
  position, and the last position the window reaches (\<open>d\<close> when it is empty).
\<close>

fun window_sum :: "real \<Rightarrow> real list \<Rightarrow> bool list \<Rightarrow> nat \<Rightarrow> nat list \<Rightarrow> real" where
  "window_sum gamma rs ts i [] = 0"
| "window_sum gamma rs ts i (j # js) =
     gamma ^ j * rs ! (i + j) + (if ts ! (i + j) then 0 else window_sum gamma rs ts i js)"

fun window_stop :: "bool list \<Rightarrow> nat \<Rightarrow> nat list \<Rightarrow> nat \<Rightarrow> nat" where
  "window_stop ts i [] d = d"
| "window_stop ts i (j # js) d = (if ts ! (i + j) then j else window_stop ts i js j)"

subsection \<open>Floats that may be non-finite\<close>

datatype npfloat = Fin real | PosInf | NegInf | NaN

fun np_abs :: "npfloat \<Rightarrow> npfloat" where
  "np_abs (Fin x) = Fin \<bar>x\<bar>"
| "np_abs PosInf = PosInf"
| "np_abs NegInf = PosInf"
| "np_abs NaN = NaN"

fun np_add :: "npfloat \<Rightarrow> npfloat \<Rightarrow> npfloat" where
  "np_add (Fin x) (Fin y) = Fin (x + y)"
| "np_add NaN y = NaN"
| "np_add x NaN = NaN"
| "np_add PosInf NegInf = NaN"
| "np_add NegInf PosInf = NaN"
| "np_add PosInf y = PosInf"
| "np_add x PosInf = PosInf"
| "np_add NegInf y = NegInf"
| "np_add x NegInf = NegInf"

fun np_isfinite :: "npfloat \<Rightarrow> bool" where
  "np_isfinite (Fin x) = True"
| "np_isfinite PosInf = False"
| "np_isfinite NegInf = False"
| "np_isfinite NaN = False"

subsection \<open>The worker and its collaborators\<close>

text \<open>
  The fields of \<^verbatim>\<open>self\<close> that the methods below read or write. The dictionary
  \<^verbatim>\<open>self.preprocessors\<close> has the keys \<^verbatim>\<open>env_0 .. env_{N-1}\<close> and is a list indexed by
  slot; a slot without preprocessor holds \<open>None\<close>. \<open>'e\<close> is the internal state of the
  vector environment, \<open>'q\<close> the memory of one preprocessor stack, \<open>'g\<close> the state of the
  agent. \<^verbatim>\<open>self.zero_batched_state\<close> is an array of one row, kept as that row.
\<close>

record ('s, 'e, 'q, 'g) worker =
  env_frame_skip :: int
  worker_sample_size :: int
  worker_computes_weights :: bool
  n_step_adjustment :: int
  num_environments :: nat
  discount :: real
  vector_env :: 'e
  preprocessors :: "'q option list"
  agent :: 'g
  finished_episode_rewards :: "real list list"
  finished_episode_timesteps :: "int list list"
  total_worker_steps :: int
  episodes_executed :: int
  sample_times :: "real list"
  sample_steps :: "int list"
  sample_env_frames :: "int list"
  last_states :: "'s list"
  zero_batched_state :: 's
  preprocessed_states_buffer :: "'s list"
  last_ep_timesteps :: "int list"
  last_ep_rewards :: "real list"
  last_terminals :: "bool list"

text \<open>The sample batch dictionary: the five lists and \<^verbatim>\<open>importance_weights\<close>.\<close>

record ('s, 'a) sample_batch = "('s, 'a) batch" +
  importance_weights :: "npfloat list"

text \<open>
  The code this worker calls and that is not part of it, as parameters: the vector
  environment (\<^verbatim>\<open>SequentialVectorEnv\<close>), the preprocessor stack, the agent, the
  compression codec, the constant \<^verbatim>\<open>SMALL_NUMBER\<close> of \<^verbatim>\<open>rlgraph.utils.util\<close> and numpy's
  \<^verbatim>\<open>zeros_like\<close>. Each takes the state of its object and returns the new one. The shape
  bookkeeping of numpy is left out: \<open>preprocess\<close> stands for
  \<^verbatim>\<open>preprocess(force_batch(state))\<close> read back as one row.
\<close>

record ('s, 'a, 'e, 'q, 'g, 'c) collab =
  env_reset_all :: "'e \<Rightarrow> 'e \<times> 's list"
  env_reset :: "'e \<Rightarrow> nat \<Rightarrow> 'e \<times> 's"
  env_step :: "'e \<Rightarrow> 'a list \<Rightarrow> 'e \<times> 's list \<times> real list \<times> bool list"
  preprocess :: "'q \<Rightarrow> 's \<Rightarrow> 'q \<times> 's"
  preprocessor_reset :: "'q \<Rightarrow> 'q"
  agent_reset :: "'g \<Rightarrow> 'g"
  get_action :: "'g \<Rightarrow> 's list \<Rightarrow> bool \<Rightarrow> 'g \<times> 'a list"
  get_td_loss :: "'g \<Rightarrow> ('s, 'a) sample_batch \<Rightarrow> npfloat list"
  ray_compress :: "'s \<Rightarrow> 'c"
  SMALL_NUMBER :: real
  zeros_like :: "'s list \<Rightarrow> 's"

subsection \<open>\<^verbatim>\<open>RayWorker.__init__\<close>\<close>

text \<open>
  The constructor, from the configuration values it pops out of the worker spec, the
  vector environment, the preprocessor stacks and the agent it has built.
\<close>

definition init_worker ::
  "('s, 'a, 'e, 'q, 'g, 'c) collab \<Rightarrow> int \<Rightarrow> int \<Rightarrow> bool \<Rightarrow> int \<Rightarrow> nat \<Rightarrow> real \<Rightarrow>
   'e \<Rightarrow> 'q option \<Rightarrow> 'g \<Rightarrow> 's \<Rightarrow> ('s, 'e, 'q, 'g) worker"
where
  "init_worker cb frame_skip sample_size computes_weights n_step N gamma env pre ag zero =
     (let (env', sts) = env_reset_all cb env
      in \<lparr>env_frame_skip = frame_skip,
          worker_sample_size = sample_size,
          worker_computes_weights = computes_weights,
          n_step_adjustment = n_step,
          num_environments = N,
          discount = gamma,
          vector_env = env',
          preprocessors = replicate N pre,
          agent = agent_reset cb ag,
          finished_episode_rewards = replicate N [],
          finished_episode_timesteps = replicate N [],
          total_worker_steps = 0,
          episodes_executed = 0,
          sample_times = [],
          sample_steps = [],
          sample_env_frames = [],
          last_states = sts,
          zero_batched_state = zero,
          preprocessed_states_buffer = replicate N zero,
          last_ep_timesteps = replicate N 0,
          last_ep_rewards = replicate N 0,
          last_terminals = replicate N False\<rparr>)"

text \<open>What the constructor establishes: every per-slot list has one entry per slot.\<close>

definition wf_worker :: "('s, 'e, 'q, 'g) worker \<Rightarrow> bool" where
  "wf_worker w \<longleftrightarrow>
     length (preprocessors w) = num_environments w \<and>
     length (finished_episode_rewards w) = num_environments w \<and>
     length (finished_episode_timesteps w) = num_environments w \<and>
     length (last_states w) = num_environments w \<and>
     length (preprocessed_states_buffer w) = num_environments w \<and>
     length (last_ep_timesteps w) = num_environments w \<and>
     length (last_ep_rewards w) = num_environments w"

subsection \<open>\<^verbatim>\<open>RayWorker._process_sample_if_necessary\<close>\<close>

text \<open>The dictionary handed to \<^verbatim>\<open>get_td_loss\<close>: the batch and the weights.\<close>

definition with_weights :: "('s, 'a) batch \<Rightarrow> npfloat list \<Rightarrow> ('s, 'a) sample_batch" where
  "with_weights b ws =
     \<lparr>states = states b, actions = actions b, rewards = rewards b,
      next_states = next_states b, terminals = terminals b, importance_weights = ws\<rparr>"

definition process_sample_if_necessary ::
  "('s, 'a, 'e, 'q, 'g, 'c) collab \<Rightarrow> ('s, 'e, 'q, 'g) worker \<Rightarrow> ('s, 'a) batch \<Rightarrow>
   error + (('c, 'a) sample_batch \<times> nat)"
where
  "process_sample_if_necessary cb w b =
     bind_e (n_step_adjuster (n_step_adjustment w) (discount w) b) (\<lambda>b'.
       let weights = replicate (length (rewards b')) (Fin 1);
           weights' =
             (if worker_computes_weights w then
                map (\<lambda>loss. np_add (np_abs loss) (Fin (SMALL_NUMBER cb)))
                  (get_td_loss cb (agent w) (with_weights b' weights))
              else weights)
       in Inr (\<lparr>states = map (ray_compress cb) (states b'),
                 actions = actions b',
                 rewards = rewards b',
                 next_states = map (ray_compress cb) (next_states b'),
                 terminals = terminals b',
                 importance_weights = weights'\<rparr>,
               length (rewards b')))"

subsection \<open>\<^verbatim>\<open>RayWorker.execute_and_get_timesteps\<close>\<close>

text \<open>
  The local variables of one call. \<open>episodes_executed_call\<close> is the local list
  \<^verbatim>\<open>episodes_executed\<close>, \<open>loop_terminals\<close> the local \<^verbatim>\<open>terminals\<close> and
  \<open>loop_next_states\<close> the local \<^verbatim>\<open>next_states\<close>. After the first step \<^verbatim>\<open>env_states\<close> and
  \<^verbatim>\<open>next_states\<close> name one list object, so a write to one is a write to both. The
  dictionaries \<^verbatim>\<open>sample_states\<close>, ... have one key per slot and are lists indexed by slot.
  \<^verbatim>\<open>current_episode_rewards\<close> and \<^verbatim>\<open>current_episode_timesteps\<close> name the lists
  \<^verbatim>\<open>self.last_ep_rewards\<close> and \<^verbatim>\<open>self.last_ep_timesteps\<close>, which are assigned back at the
  end of the call.
\<close>

record ('s, 'a) locals =
  timesteps_executed :: int
  episodes_executed_call :: "int list"
  env_frames :: int
  sample_states :: "'s list list"
  sample_actions :: "'a list list"
  sample_rewards :: "real list list"
  sample_terminals :: "bool list list"
  loop_next_states :: "'s list"
  env_states :: "'s list"
  current_episode_rewards :: "real list"
  current_episode_timesteps :: "int list"
  loop_terminals :: "bool list"

text \<open>\<^verbatim>\<open>for i, env_id in enumerate(self.env_ids):\<close>\<close>

definition for_slots :: "nat \<Rightarrow> (nat \<Rightarrow> 'x \<Rightarrow> 'x) \<Rightarrow> 'x \<Rightarrow> 'x" where
  "for_slots N f = fold f [0..<N]"

definition init_locals ::
  "('s, 'a, 'e, 'q, 'g, 'c) collab \<Rightarrow> ('s, 'e, 'q, 'g) worker \<Rightarrow> ('s, 'a) locals"
where
  "init_locals cb w =
     \<lparr>timesteps_executed = 0,
      episodes_executed_call = replicate (num_environments w) 0,
      env_frames = 0,
      sample_states = replicate (num_environments w) [],
      sample_actions = replicate (num_environments w) [],
      sample_rewards = replicate (num_environments w) [],
      sample_terminals = replicate (num_environments w) [],
      loop_next_states = replicate (num_environments w) (zeros_like cb (last_states w)),
      env_states = last_states w,
      current_episode_rewards = last_ep_rewards w,
      current_episode_timesteps = last_ep_timesteps w,
      loop_terminals = replicate (num_environments w) False\<rparr>"

text \<open>
  Lines 235-240: the state of slot \<open>i\<close> goes through its preprocessor into the buffer.
  The buffer is a numpy array, and an assignment to its row casts the value to the dtype of
  the buffer; states are abstract values here and the row holds the value as it is.
\<close>

definition preprocess_slot ::
  "('s, 'a, 'e, 'q, 'g, 'c) collab \<Rightarrow> 'q option \<Rightarrow> 's \<Rightarrow> 'q option \<times> 's"
where
  "preprocess_slot cb p s =
     (case p of
        None \<Rightarrow> (None, s)
      | Some q \<Rightarrow> (let (q', s') = preprocess cb q s in (Some q', s')))"

definition preprocess_states ::
  "('s, 'a, 'e, 'q, 'g, 'c) collab \<Rightarrow> 's list \<Rightarrow> nat \<Rightarrow>
   ('s, 'e, 'q, 'g) worker \<Rightarrow> ('s, 'e, 'q, 'g) worker"
where
  "preprocess_states cb sts i w =
     (let (p', s') = preprocess_slot cb (preprocessors w ! i) (sts ! i)
      in w\<lparr>preprocessors := (preprocessors w)[i := p'],
            preprocessed_states_buffer := (preprocessed_states_buffer w)[i := s']\<rparr>)"

text \<open>Lines 246-248.\<close>

definition record_step ::
  "'s list \<Rightarrow> 'a list \<Rightarrow> nat \<Rightarrow> ('s, 'a) locals \<Rightarrow> ('s, 'a) locals"
where
  "record_step buffer acts i l =
     l\<lparr>sample_states := (sample_states l)[i := sample_states l ! i @ [buffer ! i]],
       sample_actions := (sample_actions l)[i := sample_actions l ! i @ [acts ! i]]\<rparr>"

text \<open>
  Lines 266-288, the accounting of slot \<open>i\<close> after a step that returned \<open>step_rewards\<close>
  and the terminals now in \<open>loop_terminals\<close>.
\<close>

definition account_slot ::
  "('s, 'a, 'e, 'q, 'g, 'c) collab \<Rightarrow> int \<Rightarrow> real list \<Rightarrow> nat \<Rightarrow>
   ('s, 'e, 'q, 'g) worker \<times> ('s, 'a) locals \<Rightarrow> ('s, 'e, 'q, 'g) worker \<times> ('s, 'a) locals"
where
  "account_slot cb max_timesteps_per_episode step_rewards i = (\<lambda>(w, l).
     let ts = (current_episode_timesteps l)[i := current_episode_timesteps l ! i + 1];
         rw = (current_episode_rewards l)[i := current_episode_rewards l ! i + step_rewards ! i];
         l1 = l\<lparr>current_episode_timesteps := ts,
                 current_episode_rewards := rw,
                 sample_rewards := (sample_rewards l)[i := sample_rewards l ! i @ [step_rewards ! i]],
                 sample_terminals :=
                   (sample_terminals l)[i := sample_terminals l ! i @ [loop_terminals l ! i]]\<rparr>
     in if loop_terminals l ! i \<or>
           (0 < max_timesteps_per_episode \<and> max_timesteps_per_episode \<le> ts ! i)
        then
          (let (env', s0) = env_reset cb (vector_env w) i
           in (w\<lparr>finished_episode_rewards :=
                    (finished_episode_rewards w)[i := finished_episode_rewards w ! i @ [rw ! i]],
                  finished_episode_timesteps :=
                    (finished_episode_timesteps w)[i := finished_episode_timesteps w ! i @ [ts ! i]],
                  episodes_executed := episodes_executed w + 1,
                  vector_env := env',
                  preprocessors :=
                    (preprocessors w)[i := map_option (preprocessor_reset cb) (preprocessors w ! i)]\<rparr>,
               l1\<lparr>episodes_executed_call :=
                     (episodes_executed_call l)[i := episodes_executed_call l ! i + 1],
                   env_states := (env_states l)[i := s0],
                   loop_next_states := (loop_next_states l)[i := s0],
                   current_episode_rewards := rw[i := 0],
                   current_episode_timesteps := ts[i := 0]\<rparr>))
        else (w, l1))"

text \<open>
  One pass of the \<^verbatim>\<open>while\<close> body up to the accounting (lines 235-288). A list that a
  collaborator returns with fewer than \<open>N\<close> entries makes one of the indexed reads or
  writes of the pass raise IndexError.
\<close>

definition loop_body ::
  "('s, 'a, 'e, 'q, 'g, 'c) collab \<Rightarrow> bool \<Rightarrow> int \<Rightarrow>
   ('s, 'e, 'q, 'g) worker \<times> ('s, 'a) locals \<Rightarrow>
   error + (('s, 'e, 'q, 'g) worker \<times> ('s, 'a) locals)"
where
  "loop_body cb use_exploration max_timesteps_per_episode = (\<lambda>(w, l).
     let N = num_environments w in
     if length (env_states l) < N then Inl IndexError
     else
       let w1 = for_slots N (preprocess_states cb (env_states l)) w;
           (ag', acts) = get_action cb (agent w1) (preprocessed_states_buffer w1) use_exploration
       in if length acts < N then Inl IndexError
          else
            let l1 = for_slots N (record_step (preprocessed_states_buffer w1) acts) l;
                (env', nxt, step_rewards, terms) = env_step cb (vector_env w1) acts
            in if length nxt < N \<or> length step_rewards < N \<or> length terms < N
               then Inl IndexError
               else
                 Inr (for_slots N (account_slot cb max_timesteps_per_episode step_rewards)
                        (w1\<lparr>agent := ag', vector_env := env'\<rparr>,
                         l1\<lparr>timesteps_executed := timesteps_executed l1 + int N,
                            env_frames := env_frames l1 + int N,
                            loop_next_states := nxt,
                            env_states := nxt,
                            loop_terminals := terms\<rparr>)))"

text \<open>
  The \<^verbatim>\<open>while\<close> loop of lines 233-292 with its \<^verbatim>\<open>break\<close>. The loop need not end (a
  worker without slots never reaches a positive budget): \<open>None\<close> is the call that does
  not return.
\<close>

definition break_now :: "int \<Rightarrow> bool \<Rightarrow> ('s, 'a) locals \<Rightarrow> bool" where
  "break_now num_timesteps break_on_terminal l \<longleftrightarrow>
     (0 < num_timesteps \<and> num_timesteps \<le> timesteps_executed l) \<or>
     (break_on_terminal \<and> list_ex (\<lambda>t. t) (loop_terminals l))"

partial_function (option) collect_loop ::
  "('s, 'a, 'e, 'q, 'g, 'c) collab \<Rightarrow> int \<Rightarrow> int \<Rightarrow> bool \<Rightarrow> bool \<Rightarrow>
   ('s, 'e, 'q, 'g) worker \<times> ('s, 'a) locals \<Rightarrow>
   (error + (('s, 'e, 'q, 'g) worker \<times> ('s, 'a) locals)) option"
where
  "collect_loop cb num_timesteps max_timesteps_per_episode use_exploration break_on_terminal st =
     (if timesteps_executed (snd st) < num_timesteps then
        (case loop_body cb use_exploration max_timesteps_per_episode st of
           Inl e \<Rightarrow> Some (Inl e)
         | Inr st' \<Rightarrow>
             if break_now num_timesteps break_on_terminal (snd st')
             then Some (Inr ((fst st')\<lparr>total_worker_steps :=
                               total_worker_steps (fst st') + timesteps_executed (snd st')\<rparr>,
                             snd st'))
             else collect_loop cb num_timesteps max_timesteps_per_episode use_exploration
                    break_on_terminal st')
      else Some (Inr st))"

declare collect_loop.simps [code]

text \<open>
  Lines 308-326: the batch is put together slot after slot, each slot's trajectory in one
  piece. The next state of a slot's last transition is the zero state when the slot's last
  step was terminal, and else its current state sent through its preprocessor, which is a
  further call of the preprocessor. When the loop never ran (a budget that is not
  positive), \<^verbatim>\<open>next_states[i]\<close> is still the zero array of line 217, which has one row per
  slot; \<^verbatim>\<open>extend\<close> then adds all of its rows, where this definition adds the one value
  that stands for the array. The definition is that of a call whose loop has run, and
  what is proved of a call below is proved for a positive budget.
\<close>

definition assemble_slot ::
  "('s, 'a, 'e, 'q, 'g, 'c) collab \<Rightarrow> ('s, 'a) locals \<Rightarrow> nat \<Rightarrow>
   ('s, 'e, 'q, 'g) worker \<times> ('s, 'a) batch \<Rightarrow> ('s, 'e, 'q, 'g) worker \<times> ('s, 'a) batch"
where
  "assemble_slot cb l i = (\<lambda>(w, b).
     let env_sample_states = sample_states l ! i;
         (w', next_state) =
           (if loop_terminals l ! i then (w, zero_batched_state w)
            else
              (let (p', s') = preprocess_slot cb (preprocessors w ! i) (loop_next_states l ! i)
               in (w\<lparr>preprocessors := (preprocessors w)[i := p']\<rparr>, s')))
     in (w',
         \<lparr>states = states b @ env_sample_states,
          actions = actions b @ sample_actions l ! i,
          rewards = rewards b @ sample_rewards l ! i,
          next_states = next_states b @ tl env_sample_states @ [next_state],
          terminals = terminals b @ sample_terminals l ! i\<rparr>))"

text \<open>The \<^verbatim>\<open>EnvironmentSample\<close> a call returns, with its metrics.\<close>

record ('c, 'a) environment_sample =
  es_sample_batch :: "('c, 'a) sample_batch"
  es_batch_size :: nat
  es_runtime :: real
  es_timesteps_executed :: int
  es_ops_per_second :: real

text \<open>Lines 294-302: the carry state and the throughput samples are stored.\<close>

definition store_carry ::
  "real \<Rightarrow> ('s, 'e, 'q, 'g) worker \<times> ('s, 'a) locals \<Rightarrow> ('s, 'e, 'q, 'g) worker"
where
  "store_carry total_time = (\<lambda>(w, l).
     w\<lparr>last_terminals := loop_terminals l,
       last_states := env_states l,
       last_ep_rewards := current_episode_rewards l,
       last_ep_timesteps := current_episode_timesteps l,
       sample_steps := sample_steps w @ [timesteps_executed l],
       sample_times := sample_times w @ [total_time],
       sample_env_frames := sample_env_frames w @ [env_frames l]\<rparr>)"

text \<open>Line 299, the time the call notes down: \<^verbatim>\<open>(time.monotonic() - start) or 1e-10\<close>.\<close>

definition noted_time :: "real \<Rightarrow> real" where
  "noted_time elapsed = (if elapsed = 0 then 1 / 10 ^ 10 else elapsed)"

text \<open>
  The whole call. \<open>elapsed\<close> is what \<^verbatim>\<open>time.monotonic() - start\<close> measures. The result is
  the worker after the call and the sample; \<open>None\<close> when the call does not return.
\<close>

definition execute_and_get_timesteps ::
  "('s, 'a, 'e, 'q, 'g, 'c) collab \<Rightarrow> real \<Rightarrow> ('s, 'e, 'q, 'g) worker \<Rightarrow>
   int \<Rightarrow> int \<Rightarrow> bool \<Rightarrow> bool \<Rightarrow>
   (error + (('s, 'e, 'q, 'g) worker \<times> ('c, 'a) environment_sample)) option"
where
  "execute_and_get_timesteps cb elapsed w num_timesteps max_timesteps_per_episode
       use_exploration break_on_terminal =
     map_option (\<lambda>r. bind_e r (\<lambda>(w1, l).
         let total_time = noted_time elapsed;
             w2 = store_carry total_time (w1, l);
             (w3, b) = for_slots (num_environments w2) (assemble_slot cb l)
                         (w2, \<lparr>states = [], actions = [], rewards = [], next_states = [],
                               terminals = []\<rparr>)
         in bind_e (process_sample_if_necessary cb w3 b) (\<lambda>(sample, size).
              Inr (w3, \<lparr>es_sample_batch = sample,
                        es_batch_size = size,
                        es_runtime = total_time,
                        es_timesteps_executed = timesteps_executed l,
                        es_ops_per_second = real_of_int (timesteps_executed l) / total_time\<rparr>))))
       (collect_loop cb num_timesteps max_timesteps_per_episode use_exploration break_on_terminal
          (w, init_locals cb w))"

text \<open>\<^verbatim>\<open>execute_and_get_with_count\<close>: a call with the configured sample size.\<close>

definition execute_and_get_with_count ::
  "('s, 'a, 'e, 'q, 'g, 'c) collab \<Rightarrow> real \<Rightarrow> ('s, 'e, 'q, 'g) worker \<Rightarrow>
   (error + (('s, 'e, 'q, 'g) worker \<times> ('c, 'a) environment_sample \<times> nat)) option"
where
  "execute_and_get_with_count cb elapsed w =
     map_option (\<lambda>r. bind_e r (\<lambda>(w', sample). Inr (w', sample, es_batch_size sample)))
       (execute_and_get_timesteps cb elapsed w (worker_sample_size w) 0 True False)"

subsection \<open>\<^verbatim>\<open>RayWorker.get_workload_statistics\<close>\<close>

text \<open>
  \<^verbatim>\<open>np.min\<close> and \<^verbatim>\<open>np.max\<close> raise ValueError on an empty list, \<^verbatim>\<open>np.mean\<close> returns nan
  there, \<^verbatim>\<open>xs[-1]\<close> raises IndexError on an empty list and \<^verbatim>\<open>/\<close> raises
  ZeroDivisionError on a zero divisor.
\<close>

definition np_min :: "real list \<Rightarrow> error + npfloat" where
  "np_min xs = (case xs of [] \<Rightarrow> Inl ValueError | x # ys \<Rightarrow> Inr (Fin (fold min ys x)))"

definition np_max :: "real list \<Rightarrow> error + npfloat" where
  "np_max xs = (case xs of [] \<Rightarrow> Inl ValueError | x # ys \<Rightarrow> Inr (Fin (fold max ys x)))"

definition np_mean :: "real list \<Rightarrow> npfloat" where
  "np_mean xs = (if xs = [] then NaN else Fin (sum_list xs / real (length xs)))"

definition py_last :: "'a list \<Rightarrow> error + 'a" where
  "py_last xs = (if xs = [] then Inl IndexError else Inr (last xs))"

definition py_div :: "real \<Rightarrow> real \<Rightarrow> error + real" where
  "py_div x y = (if y = 0 then Inl ZeroDivisionError else Inr (x / y))"

text \<open>A list comprehension whose element expression may raise.\<close>

fun map_e :: "('a \<Rightarrow> error + 'b) \<Rightarrow> 'a list \<Rightarrow> error + 'b list" where
  "map_e f [] = Inr []"
| "map_e f (x # xs) = bind_e (f x) (\<lambda>y. bind_e (map_e f xs) (\<lambda>ys. Inr (y # ys)))"

record workload_statistics =
  episode_timesteps :: "int list list"
  episode_rewards :: "real list list"
  min_episode_reward :: "npfloat option"
  max_episode_reward :: "npfloat option"
  mean_episode_reward :: "npfloat option"
  final_episode_reward :: "npfloat option"
  stat_episodes_executed :: int
  worker_steps :: int
  mean_worker_ops_per_second :: real
  mean_worker_env_frames_per_second :: real

definition get_workload_statistics ::
  "('s, 'e, 'q, 'g) worker \<Rightarrow> error + workload_statistics"
where
  "get_workload_statistics w =
     (let adjusted_frames = map (\<lambda>frames. frames * env_frame_skip w) (sample_env_frames w)
      in bind_e
           (if 0 < length (finished_episode_rewards w) then
              (let all_finished_rewards = concat (finished_episode_rewards w)
               in bind_e (np_min all_finished_rewards) (\<lambda>min_reward.
                  bind_e (np_max all_finished_rewards) (\<lambda>max_reward.
                  bind_e (map_e py_last (finished_episode_rewards w)) (\<lambda>finals.
                    Inr (Some min_reward, Some max_reward,
                         Some (np_mean all_finished_rewards), Some (np_mean finals))))))
            else Inr (None, None, None, None))
           (\<lambda>(min_reward, max_reward, mean_reward, final_reward).
              bind_e (py_div (real_of_int (sum_list (sample_steps w))) (sum_list (sample_times w)))
                (\<lambda>ops.
              bind_e (py_div (real_of_int (sum_list adjusted_frames)) (sum_list (sample_times w)))
                (\<lambda>frames_per_second.
                Inr \<lparr>episode_timesteps = finished_episode_timesteps w,
                     episode_rewards = finished_episode_rewards w,
                     min_episode_reward = min_reward,
                     max_episode_reward = max_reward,
                     mean_episode_reward = mean_reward,
                     final_episode_reward = final_reward,
                     stat_episodes_executed = episodes_executed w,
                     worker_steps = total_worker_steps w,
                     mean_worker_ops_per_second = ops,
                     mean_worker_env_frames_per_second = frames_per_second\<rparr>))))"

subsection \<open>Well-formed states and collaborators\<close>

text \<open>
  What the worker relies on from its collaborators: the agent returns one action per state
  and the environment one next state, reward and terminal flag per action.
\<close>

definition contract :: "('s, 'a, 'e, 'q, 'g, 'c) collab \<Rightarrow> nat \<Rightarrow> bool" where
  "contract cb N \<longleftrightarrow>
     (\<forall>g sts explore. length sts = N \<longrightarrow> length (snd (get_action cb g sts explore)) = N) \<and>
     (\<forall>e acts. length acts = N \<longrightarrow>
        length (fst (snd (env_step cb e acts))) = N \<and>
        length (fst (snd (snd (env_step cb e acts)))) = N \<and>
        length (snd (snd (snd (env_step cb e acts)))) = N)"

text \<open>
  The local variables after \<open>n\<close> passes of the loop of a worker of \<open>N\<close> slots: the
  counters, one entry per slot in every list and \<open>n\<close> samples for every slot.
\<close>

definition wf_locals :: "nat \<Rightarrow> nat \<Rightarrow> ('s, 'a) locals \<Rightarrow> bool" where
  "wf_locals N n l \<longleftrightarrow>
     timesteps_executed l = int n * int N \<and>
     env_frames l = int n * int N \<and>
     length (episodes_executed_call l) = N \<and>
     length (sample_states l) = N \<and> length (sample_actions l) = N \<and>
     length (sample_rewards l) = N \<and> length (sample_terminals l) = N \<and>
     length (loop_next_states l) = N \<and> length (env_states l) = N \<and>
     length (current_episode_rewards l) = N \<and> length (current_episode_timesteps l) = N \<and>
     length (loop_terminals l) = N \<and>
     (\<forall>i<N. length (sample_states l ! i) = n \<and> length (sample_actions l ! i) = n \<and>
            length (sample_rewards l ! i) = n \<and> length (sample_terminals l ! i) = n)"

text \<open>What the accounting of one step leaves alone, and the lengths it keeps.\<close>

definition account_frame ::
  "('s, 'e, 'q, 'g) worker \<times> ('s, 'a) locals \<Rightarrow>
   ('s, 'e, 'q, 'g) worker \<times> ('s, 'a) locals \<Rightarrow> bool"
where
  "account_frame = (\<lambda>(w, l) (w', l').
     num_environments w' = num_environments w \<and>
     preprocessed_states_buffer w' = preprocessed_states_buffer w \<and>
     last_states w' = last_states w \<and>
     last_ep_timesteps w' = last_ep_timesteps w \<and>
     last_ep_rewards w' = last_ep_rewards w \<and>
     agent w' = agent w \<and>
     timesteps_executed l' = timesteps_executed l \<and>
     env_frames l' = env_frames l \<and>
     sample_states l' = sample_states l \<and>
     sample_actions l' = sample_actions l \<and>
     loop_terminals l' = loop_terminals l \<and>
     length (finished_episode_rewards w') = length (finished_episode_rewards w) \<and>
     length (finished_episode_timesteps w') = length (finished_episode_timesteps w) \<and>
     length (preprocessors w') = length (preprocessors w) \<and>
     length (current_episode_timesteps l') = length (current_episode_timesteps l) \<and>
     length (current_episode_rewards l') = length (current_episode_rewards l) \<and>
     length (sample_rewards l') = length (sample_rewards l) \<and>
     length (sample_terminals l') = length (sample_terminals l) \<and>
     length (episodes_executed_call l') = length (episodes_executed_call l) \<and>
     length (env_states l') = length (env_states l) \<and>
     length (loop_next_states l') = length (loop_next_states l))"

text \<open>What one slot sees of the state, and what the accounting of a step does to it.\<close>

record ('s, 'q) slot_view =
  sv_finished_rewards :: "real list"
  sv_finished_timesteps :: "int list"
  sv_preprocessor :: "'q option"
  sv_episode_reward :: real
  sv_episode_timesteps :: int
  sv_sample_rewards :: "real list"
  sv_sample_terminals :: "bool list"
  sv_env_state :: 's
  sv_next_state :: 's

definition slot_view ::
  "nat \<Rightarrow> ('s, 'e, 'q, 'g) worker \<times> ('s, 'a) locals \<Rightarrow> ('s, 'q) slot_view"
where
  "slot_view i = (\<lambda>(w, l).
     \<lparr>sv_finished_rewards = finished_episode_rewards w ! i,
      sv_finished_timesteps = finished_episode_timesteps w ! i,
      sv_preprocessor = preprocessors w ! i,
      sv_episode_reward = current_episode_rewards l ! i,
      sv_episode_timesteps = current_episode_timesteps l ! i,
      sv_sample_rewards = sample_rewards l ! i,
      sv_sample_terminals = sample_terminals l ! i,
      sv_env_state = env_states l ! i,
      sv_next_state = loop_next_states l ! i\<rparr>)"

definition account_view ::
  "('s, 'a, 'e, 'q, 'g, 'c) collab \<Rightarrow> int \<Rightarrow> real \<Rightarrow> bool \<Rightarrow> nat \<Rightarrow> 'e \<Rightarrow>
   ('s, 'q) slot_view \<Rightarrow> ('s, 'q) slot_view"
where
  "account_view cb m r t i e v =
     (if t \<or> (0 < m \<and> m \<le> sv_episode_timesteps v + 1) then
        \<lparr>sv_finished_rewards = sv_finished_rewards v @ [sv_episode_reward v + r],
         sv_finished_timesteps = sv_finished_timesteps v @ [sv_episode_timesteps v + 1],
         sv_preprocessor = map_option (preprocessor_reset cb) (sv_preprocessor v),
         sv_episode_reward = 0,
         sv_episode_timesteps = 0,
         sv_sample_rewards = sv_sample_rewards v @ [r],
         sv_sample_terminals = sv_sample_terminals v @ [t],
         sv_env_state = snd (env_reset cb e i),
         sv_next_state = snd (env_reset cb e i)\<rparr>
      else
        v\<lparr>sv_episode_reward := sv_episode_reward v + r,
          sv_episode_timesteps := sv_episode_timesteps v + 1,
          sv_sample_rewards := sv_sample_rewards v @ [r],
          sv_sample_terminals := sv_sample_terminals v @ [t]\<rparr>)"

definition slots_wide :: "nat \<Rightarrow> ('s, 'e, 'q, 'g) worker \<times> ('s, 'a) locals \<Rightarrow> bool" where
  "slots_wide N = (\<lambda>(w, l).
     length (finished_episode_rewards w) = N \<and> length (finished_episode_timesteps w) = N \<and>
     length (preprocessors w) = N \<and> length (current_episode_rewards l) = N \<and>
     length (current_episode_timesteps l) = N \<and> length (sample_rewards l) = N \<and>
     length (sample_terminals l) = N \<and> length (env_states l) = N \<and>
     length (loop_next_states l) = N)"

definition wf_state ::
  "nat \<Rightarrow> nat \<Rightarrow> ('s, 'e, 'q, 'g) worker \<times> ('s, 'a) locals \<Rightarrow> bool"
where
  "wf_state N n = (\<lambda>(w, l). num_environments w = N \<and> wf_worker w \<and> wf_locals N n l)"

subsection \<open>Consecutive calls\<close>

text \<open>\<open>n\<close> passes of the loop body, one after the other.\<close>

fun iterate_body ::
  "('s, 'a, 'e, 'q, 'g, 'c) collab \<Rightarrow> bool \<Rightarrow> int \<Rightarrow> nat \<Rightarrow>
   ('s, 'e, 'q, 'g) worker \<times> ('s, 'a) locals \<Rightarrow>
   error + (('s, 'e, 'q, 'g) worker \<times> ('s, 'a) locals)"
where
  "iterate_body cb explore m 0 x = Inr x"
| "iterate_body cb explore m (Suc n) x =
     bind_e (loop_body cb explore m x) (iterate_body cb explore m n)"

text \<open>
  The part of the state that a pass of the loop reads: two states that agree on it are
  continued alike.
\<close>

definition same_carry ::
  "('s, 'e, 'q, 'g) worker \<times> ('s, 'a) locals \<Rightarrow>
   ('s, 'e, 'q, 'g) worker \<times> ('s, 'a) locals \<Rightarrow> bool"
where
  "same_carry = (\<lambda>(w, l) (w', l').
     num_environments w = num_environments w' \<and>
     vector_env w = vector_env w' \<and>
     preprocessors w = preprocessors w' \<and>
     preprocessed_states_buffer w = preprocessed_states_buffer w' \<and>
     agent w = agent w' \<and>
     finished_episode_rewards w = finished_episode_rewards w' \<and>
     finished_episode_timesteps w = finished_episode_timesteps w' \<and>
     episodes_executed w = episodes_executed w' \<and>
     env_states l = env_states l' \<and>
     current_episode_rewards l = current_episode_rewards l' \<and>
     current_episode_timesteps l = current_episode_timesteps l')"

definition same_step ::
  "('s, 'e, 'q, 'g) worker \<times> ('s, 'a) locals \<Rightarrow>
   ('s, 'e, 'q, 'g) worker \<times> ('s, 'a) locals \<Rightarrow> bool"
where
  "same_step x y \<longleftrightarrow>
     same_carry x y \<and> loop_terminals (snd x) = loop_terminals (snd y) \<and>
     loop_next_states (snd x) = loop_next_states (snd y)"

definition same_worker :: "('s, 'e, 'q, 'g) worker \<Rightarrow> ('s, 'e, 'q, 'g) worker \<Rightarrow> bool" where
  "same_worker w w' \<longleftrightarrow>
     num_environments w = num_environments w' \<and>
     vector_env w = vector_env w' \<and>
     preprocessors w = preprocessors w' \<and>
     preprocessed_states_buffer w = preprocessed_states_buffer w' \<and>
     agent w = agent w' \<and>
     finished_episode_rewards w = finished_episode_rewards w' \<and>
     finished_episode_timesteps w = finished_episode_timesteps w' \<and>
     episodes_executed w = episodes_executed w'"

text \<open>
  A preprocessor whose call at the end of a collection call goes unnoticed: there is none
  in the slot, or preprocessing keeps no memory.
\<close>

definition calm :: "('s, 'a, 'e, 'q, 'g, 'c) collab \<Rightarrow> 'q option \<Rightarrow> bool" where
  "calm cb p \<longleftrightarrow> (\<forall>q s. fst (preprocess cb q s) = q) \<or> p = None"

definition calm_all :: "('s, 'a, 'e, 'q, 'g, 'c) collab \<Rightarrow> ('s, 'e, 'q, 'g) worker \<Rightarrow> bool" where
  "calm_all cb w \<longleftrightarrow> (\<forall>p\<in>set (preprocessors w). calm cb p)"

text \<open>
  The carry state of the worker between two calls and the episode records it has
  finalized so far.
\<close>

definition carry_state ::
  "('s, 'e, 'q, 'g) worker \<Rightarrow> 's list \<times> real list \<times> int list \<times> bool list"
where
  "carry_state w = (last_states w, last_ep_rewards w, last_ep_timesteps w, last_terminals w)"

definition episode_records :: "('s, 'e, 'q, 'g) worker \<Rightarrow> real list list \<times> int list list" where
  "episode_records w = (finished_episode_rewards w, finished_episode_timesteps w)"

text \<open>Two calls, one after the other, with the budgets \<open>a\<close> and \<open>b\<close>.\<close>

definition execute_twice ::
  "('s, 'a, 'e, 'q, 'g, 'c) collab \<Rightarrow> real \<Rightarrow> real \<Rightarrow> ('s, 'e, 'q, 'g) worker \<Rightarrow>
   int \<Rightarrow> int \<Rightarrow> int \<Rightarrow> bool \<Rightarrow> bool \<Rightarrow>
   (error + (('s, 'e, 'q, 'g) worker \<times> ('c, 'a) environment_sample \<times> ('c, 'a) environment_sample))
     option"
where
  "execute_twice cb elapsed1 elapsed2 w a b max_timesteps_per_episode use_exploration
       break_on_terminal =
     (case execute_and_get_timesteps cb elapsed1 w a max_timesteps_per_episode use_exploration
             break_on_terminal of
        None \<Rightarrow> None
      | Some (Inl e) \<Rightarrow> Some (Inl e)
      | Some (Inr (w1, s1)) \<Rightarrow>
          map_option (\<lambda>r. bind_e r (\<lambda>(w2, s2). Inr (w2, s1, s2)))
            (execute_and_get_timesteps cb elapsed2 w1 b max_timesteps_per_episode
               use_exploration break_on_terminal))"

subsection \<open>A small worker to run the definitions on\<close>

text \<open>
  Collaborators over numbers. The environment counts its steps; slot \<open>i\<close> is in state
  \<open>100 * (i + 1) + t\<close> after \<open>t\<close> steps, earns the reward \<open>i + 1\<close> with every step and
  resets to the state \<open>100 * (i + 1)\<close>; slot 0 is terminal at every third step. The
  preprocessor counts its calls and leaves the state as it is, the agent repeats the
  state as the action, the loss of a transition is its reward.
\<close>

definition example_collab :: "nat \<Rightarrow> (nat, nat, nat, nat, nat, nat) collab" where
  "example_collab N =
     \<lparr>env_reset_all = (\<lambda>e. (0, map (\<lambda>i. 100 * (i + 1)) [0..<N])),
      env_reset = (\<lambda>e i. (e, 100 * (i + 1))),
      env_step = (\<lambda>e acts.
        (e + 1,
         map (\<lambda>i. 100 * (i + 1) + (e + 1)) [0..<length acts],
         map (\<lambda>i. real (i + 1)) [0..<length acts],
         map (\<lambda>i. i = 0 \<and> (e + 1) mod 3 = 0) [0..<length acts])),
      preprocess = (\<lambda>q s. (q + 1, s)),
      preprocessor_reset = (\<lambda>q. 0),
      agent_reset = (\<lambda>g. g),
      get_action = (\<lambda>g sts explore. (g, sts)),
      get_td_loss = (\<lambda>g b. map Fin (rewards b)),
      ray_compress = (\<lambda>s. s),
      SMALL_NUMBER = 1 / 1000000,
      zeros_like = (\<lambda>sts. 0)\<rparr>"

text \<open>The same with a loss that is not a number.\<close>

definition nan_collab :: "(nat, nat, nat, nat, nat, nat) collab" where
  "nan_collab = (example_collab 2)\<lparr>get_td_loss := (\<lambda>g b. map (\<lambda>r. NaN) (rewards b))\<rparr>"

text \<open>
  A worker of \<open>N\<close> slots with the preprocessors \<open>pre\<close>, the n-step factor \<open>k\<close>,
  discount 1/2 and weights computed or not.
\<close>

definition example_worker ::
  "nat \<Rightarrow> nat option \<Rightarrow> int \<Rightarrow> bool \<Rightarrow> (nat, nat, nat, nat) worker"
where
  "example_worker N pre k computes_weights =
     init_worker (example_collab N) 1 4 computes_weights k N (1 / 2) 0 pre 0 0"

definition example_batch :: "(nat, nat) batch" where
  "example_batch =
     \<lparr>states = [100, 101], actions = [100, 101], rewards = [1, -3],
      next_states = [101, 102], terminals = [False, False]\<rparr>"

text \<open>
  A worker of one slot whose preprocessor has a memory: it returns the number of its
  calls so far. The action is the preprocessed state and the environment moves to the
  action and pays it as the reward.
\<close>

definition memory_collab :: "(nat, nat, nat, nat, nat, nat) collab" where
  "memory_collab =
     \<lparr>env_reset_all = (\<lambda>e. (0, [0])),
      env_reset = (\<lambda>e i. (e, 0)),
      env_step = (\<lambda>e acts. (e + 1, acts, map real acts, map (\<lambda>a. False) acts)),
      preprocess = (\<lambda>q s. (q + 1, q)),
      preprocessor_reset = (\<lambda>q. 0),
      agent_reset = (\<lambda>g. g),
      get_action = (\<lambda>g sts explore. (g, sts)),
      get_td_loss = (\<lambda>g b. map Fin (rewards b)),
      ray_compress = (\<lambda>s. s),
      SMALL_NUMBER = 1 / 1000000,
      zeros_like = (\<lambda>sts. 0)\<rparr>"

definition memory_worker :: "(nat, nat, nat, nat) worker" where
  "memory_worker = init_worker memory_collab 1 4 False 1 1 (1 / 2) 0 (Some 0) 0 0"

section \<open>Properties\<close>

subsection \<open>Lemmas on the n-step adjustment\<close>

lemma bind_e_simps [simp]:
  "bind_e (Inl e) f = Inl e"
  "bind_e (Inr x) f = f x"
  by (simp_all add: bind_e_def)

lemma window_sum_update:
  "\<forall>j\<in>set js. i + j \<noteq> i0 \<Longrightarrow> window_sum gamma (rs[i0 := v]) ts i js = window_sum gamma rs ts i js"
  by (induction js) auto

lemma window_stop_default: "js \<noteq> [] \<Longrightarrow> window_stop ts i js d = window_stop ts i js d'"
  by (cases js) auto

lemma window_stop_mem: "window_stop ts i js d \<in> insert d (set js)"
  by (induction js arbitrary: d) auto

lemma n_step_inner_closed:
  assumes "length rs = L" "length ns = L" "length ts = L"
    and "\<forall>j\<in>set js. 0 < j \<and> i + j < L" "i < L"
  shows "n_step_inner gamma ts i js (rs, ns) =
           Inr (rs[i := rs ! i + window_sum gamma rs ts i js], ns[i := ns ! (i + window_stop ts i js 0)])"
  using assms
proof (induction js arbitrary: rs ns)
  case Nil
  then show ?case by simp
next
  case (Cons j js)
  have j: "0 < j" "i + j < L" using Cons.prems by auto
  let ?rs = "rs[i := rs ! i + gamma ^ j * rs ! (i + j)]"
  let ?ns = "ns[i := ns ! (i + j)]"
  have step: "n_step_inner gamma ts i (j # js) (rs, ns) =
      (if ts ! (i + j) then Inr (?rs, ?ns) else n_step_inner gamma ts i js (?rs, ?ns))"
    using Cons.prems j by (simp add: index_def assign_def)
  show ?case
  proof (cases "ts ! (i + j)")
    case True
    then show ?thesis using step by simp
  next
    case False
    have ih: "n_step_inner gamma ts i js (?rs, ?ns) =
        Inr (?rs[i := ?rs ! i + window_sum gamma ?rs ts i js], ?ns[i := ?ns ! (i + window_stop ts i js 0)])"
      using Cons.prems by (intro Cons.IH) auto
    have w: "window_sum gamma ?rs ts i js = window_sum gamma rs ts i js"
      using Cons.prems by (intro window_sum_update) auto
    have n: "?ns ! (i + window_stop ts i js 0) = ns ! (i + window_stop ts i js j)"
    proof (cases js)
      case Nil
      then show ?thesis using Cons.prems by simp
    next
      case (Cons a list)
      then have "js \<noteq> []" by simp
      from window_stop_default[OF this] have e: "window_stop ts i js 0 = window_stop ts i js j" .
      have "window_stop ts i js j \<in> insert j (set js)" by (rule window_stop_mem)
      then have "0 < window_stop ts i js j" using Cons.prems j by auto
      then show ?thesis using e by simp
    qed
    show ?thesis using step False ih w n Cons.prems by (simp add: algebra_simps)
  qed
qed

lemma n_step_outer_step:
  assumes "length rs = L" "length ns = L" "length ts = L" "i + k \<le> L" "0 < k"
  shows "n_step_outer gamma k ts (i # is) (rs, ns) =
           n_step_outer gamma k ts is
             (rs[i := window_sum gamma rs ts i [0..<k]], ns[i := ns ! (i + window_stop ts i [0..<k] 0)])"
proof -
  have i: "i < L" using assms by simp
  have up: "[0..<k] = 0 # [1..<k]" using assms by (simp add: upt_conv_Cons)
  show ?thesis
  proof (cases "ts ! i")
    case True
    then show ?thesis using i assms up by (simp add: index_def)
  next
    case False
    have "n_step_inner gamma ts i [1..<k] (rs, ns) =
            Inr (rs[i := rs ! i + window_sum gamma rs ts i [1..<k]],
                 ns[i := ns ! (i + window_stop ts i [1..<k] 0)])"
      using assms i by (intro n_step_inner_closed[where L = L]) auto
    then show ?thesis using False i assms up by (simp add: index_def)
  qed
qed

lemma n_step_outer_closed:
  assumes "length rs = L" "length ns = L" "length ts = L"
    and "\<forall>i\<in>set is. i + k \<le> L" "0 < k" "sorted_wrt (<) is"
  shows "\<exists>rs' ns'. n_step_outer gamma k ts is (rs, ns) = Inr (rs', ns') \<and>
           length rs' = L \<and> length ns' = L \<and>
           (\<forall>i<L. rs' ! i = (if i \<in> set is then window_sum gamma rs ts i [0..<k] else rs ! i) \<and>
                   ns' ! i = (if i \<in> set is then ns ! (i + window_stop ts i [0..<k] 0) else ns ! i))"
  using assms
proof (induction "is" arbitrary: rs ns)
  case Nil
  then show ?case by simp
next
  case (Cons i0 rest)
  let ?rs = "rs[i0 := window_sum gamma rs ts i0 [0..<k]]"
  let ?ns = "ns[i0 := ns ! (i0 + window_stop ts i0 [0..<k] 0)]"
  have i0: "i0 + k \<le> L" "i0 < L" using Cons.prems by auto
  have gt: "\<forall>i\<in>set rest. i0 < i" using Cons.prems by auto
  have step: "n_step_outer gamma k ts (i0 # rest) (rs, ns) =
                n_step_outer gamma k ts rest (?rs, ?ns)"
    using Cons.prems i0 by (intro n_step_outer_step[where L = L]) auto
  obtain rs' ns' where res: "n_step_outer gamma k ts rest (?rs, ?ns) = Inr (rs', ns')"
    and len: "length rs' = L" "length ns' = L"
    and pt: "\<forall>i<L. rs' ! i = (if i \<in> set rest then window_sum gamma ?rs ts i [0..<k] else ?rs ! i) \<and>
                   ns' ! i = (if i \<in> set rest then ?ns ! (i + window_stop ts i [0..<k] 0) else ?ns ! i)"
    using Cons.IH[of ?rs ?ns] Cons.prems by auto
  have "rs' ! i = (if i \<in> set (i0 # rest) then window_sum gamma rs ts i [0..<k] else rs ! i) \<and>
        ns' ! i = (if i \<in> set (i0 # rest) then ns ! (i + window_stop ts i [0..<k] 0) else ns ! i)"
    if "i < L" for i
  proof (cases "i \<in> set rest")
    case True
    then have lt: "i0 < i" using gt by simp
    have "window_sum gamma ?rs ts i [0..<k] = window_sum gamma rs ts i [0..<k]"
      using lt by (intro window_sum_update) auto
    moreover have "?ns ! (i + window_stop ts i [0..<k] 0) = ns ! (i + window_stop ts i [0..<k] 0)"
      using lt by simp
    ultimately show ?thesis using pt that True by simp
  next
    case False
    then show ?thesis using pt that i0 Cons.prems by (cases "i = i0") auto
  qed
  then show ?case using step res len by auto
qed


lemma n_step_outer_range:
  assumes "length rs = L" "length ns = L" "length ts = L" "1 < k"
  shows "\<exists>rs' ns'. n_step_outer gamma (nat k) ts [0..<nat (int L - k + 1)] (rs, ns) = Inr (rs', ns') \<and>
           length rs' = L \<and> length ns' = L \<and>
           (\<forall>i<L. rs' ! i = (if i < nat (int L - k + 1) then window_sum gamma rs ts i [0..<nat k] else rs ! i) \<and>
                   ns' ! i = (if i < nat (int L - k + 1) then ns ! (i + window_stop ts i [0..<nat k] 0) else ns ! i))"
proof -
  have a: "\<forall>i\<in>set [0..<nat (int L - k + 1)]. i + nat k \<le> L" using assms by auto
  have b: "0 < nat k" using assms by simp
  have c: "sorted_wrt (<) [0..<nat (int L - k + 1)]" by simp
  from n_step_outer_closed[OF assms(1-3) a b c, of gamma] show ?thesis by simp
qed

text \<open>
  C5: for the n-step factor 1 the adjustment leaves the batch as it is: every reward,
  every next state and the length.
\<close>

theorem n_step_adjuster_one_noop: "n_step_adjuster 1 gamma b = Inr b"
  by (simp add: n_step_adjuster_def)




lemma n_step_adjuster_prefix:
  assumes "wf_batch b"
  shows "\<exists>b' n. n_step_adjuster k gamma b = Inr b' \<and> n \<le> length (states b) \<and>
           states b' = take n (states b) \<and> actions b' = take n (actions b) \<and>
           terminals b' = take n (terminals b) \<and>
           length (rewards b') = n \<and> length (next_states b') = n \<and>
           (1 < k \<and> k - 1 \<le> int (length (states b)) \<longrightarrow> n = length (states b) - nat (k - 1)) \<and>
           (k \<le> 1 \<longrightarrow> n = length (states b))"
proof (cases "1 < k")
  case False
  then have "n_step_adjuster k gamma b = Inr b" by (simp add: n_step_adjuster_def)
  then show ?thesis using assms False
    by (intro exI[of _ b] exI[of _ "length (states b)"]) (simp add: wf_batch_def)
next
  case True
  define L where "L = length (states b)"
  have len: "length (rewards b) = L" "length (next_states b) = L" "length (terminals b) = L"
    "length (actions b) = L" "length (states b) = L"
    using assms(1) by (simp_all add: wf_batch_def L_def)
  obtain rs' ns' where
    res: "n_step_outer gamma (nat k) (terminals b) [0..<nat (int L - k + 1)]
            (rewards b, next_states b) = Inr (rs', ns')"
    and l': "length rs' = L" "length ns' = L"
    using n_step_outer_range[OF len(1,2,3) True, of gamma] by blast
  define n where "n = nat (if int L - k + 1 < 0 then int L + (int L - k + 1) else int L - k + 1)"
  have n: "n \<le> L" using True by (auto simp: n_def)
  have dt: "del_from xs (int L - k + 1) = take n xs" if "length xs = L" for xs :: "'c list"
    using that by (simp add: del_from_def n_def)
  define b' where "b' = \<lparr>states = take n (states b), actions = take n (actions b),
     rewards = take n rs', next_states = take n ns', terminals = take n (terminals b)\<rparr>"
  have eq: "n_step_adjuster k gamma b = Inr b'"
    using True res len l' 
    by (simp add: n_step_adjuster_def b'_def dt Let_def)
  have imp: "k - 1 \<le> int L \<longrightarrow> n = L - nat (k - 1)" using True by (auto simp: n_def)
  have "n_step_adjuster k gamma b = Inr b' \<and> n \<le> L \<and>
           states b' = take n (states b) \<and> actions b' = take n (actions b) \<and>
           terminals b' = take n (terminals b) \<and>
           length (rewards b') = n \<and> length (next_states b') = n \<and>
           (1 < k \<and> k - 1 \<le> int L \<longrightarrow> n = L - nat (k - 1)) \<and> (k \<le> 1 \<longrightarrow> n = L)"
    using eq n l' True imp by (simp add: b'_def)
  then show ?thesis unfolding L_def by blast
qed

text \<open>
  C7: the adjustment only cuts the lists of states, actions and terminals: each is a
  prefix of what it was, of the length of the new batch, so every surviving index keeps
  its state, action and terminal flag in the old order. For \<open>k > 1\<close> and a batch of at
  least \<open>k - 1\<close> transitions the prefix drops the last \<open>k - 1\<close> entries; for
  \<open>k \<le> 1\<close> nothing is dropped.
\<close>

theorem n_step_adjuster_frame:
  assumes "wf_batch b"
  shows "\<exists>b' n. n_step_adjuster k gamma b = Inr b' \<and> n \<le> length (states b) \<and>
           states b' = take n (states b) \<and> actions b' = take n (actions b) \<and>
           terminals b' = take n (terminals b) \<and>
           length (rewards b') = n \<and> length (next_states b') = n \<and>
           (1 < k \<and> k - 1 \<le> int (length (states b)) \<longrightarrow> n = length (states b) - nat (k - 1)) \<and>
           (k \<le> 1 \<longrightarrow> n = length (states b))"
  using assms by (rule n_step_adjuster_prefix)

theorem n_step_adjuster_frame_witness:
  "wf_batch \<lparr>states = [0::nat, 1, 2, 3], actions = [5::nat, 6, 7, 8], rewards = [1, 2, 4, 8],
             next_states = [1, 2, 3, 4], terminals = [False, True, False, False]\<rparr> \<and>
   n_step_adjuster 3 (1 / 2)
     \<lparr>states = [0::nat, 1, 2, 3], actions = [5::nat, 6, 7, 8], rewards = [1, 2, 4, 8],
      next_states = [1, 2, 3, 4], terminals = [False, True, False, False]\<rparr>
   = Inr \<lparr>states = take 2 [0, 1, 2, 3], actions = take 2 [5, 6, 7, 8], rewards = [2, 2],
          next_states = [2, 2], terminals = take 2 [False, True, False, False]\<rparr>"
  using n_step_adjuster_frame [of
      "\<lparr>states = [0::nat, 1, 2, 3], actions = [5::nat, 6, 7, 8], rewards = [1, 2, 4, 8],
        next_states = [1, 2, 3, 4], terminals = [False, True, False, False]\<rparr>" 3 "1 / 2"]
  by (simp add: wf_batch_def n_step_adjuster_def del_from_def index_def assign_def
        upt_conv_Cons)

subsection \<open>Priority weights\<close>

lemma n_step_adjuster_total:
  assumes "wf_batch b"
  shows "\<exists>b'. n_step_adjuster k gamma b = Inr b' \<and> wf_batch b'"
proof -
  from n_step_adjuster_prefix[OF assms, of k gamma] obtain b' n where
    "n_step_adjuster k gamma b = Inr b'" "n \<le> length (states b)"
    "states b' = take n (states b)" "actions b' = take n (actions b)"
    "terminals b' = take n (terminals b)" "length (rewards b') = n" "length (next_states b') = n"
    by blast
  then show ?thesis using assms by (auto simp: wf_batch_def)
qed

text \<open>
  C6: on a batch of five lists of one length \<^verbatim>\<open>_process_sample_if_necessary\<close> returns,
  and with the weights switched off every transition of the emitted batch has the
  weight 1.0; with the weights switched on the weight at every index \<open>i\<close> is
  \<open>abs(loss_per_item[i]) + SMALL_NUMBER\<close>, where \<open>loss_per_item\<close> is what
  \<^verbatim>\<open>get_td_loss\<close> returns for the adjusted batch with unit weights.
\<close>

theorem priority_weights:
  assumes "wf_batch b"
  shows "\<exists>b' out. n_step_adjuster (n_step_adjustment w) (discount w) b = Inr b' \<and>
           process_sample_if_necessary cb w b = Inr (out, length (rewards b')) \<and>
           rewards out = rewards b' \<and>
           (if worker_computes_weights w then
              (let loss = get_td_loss cb (agent w)
                            (with_weights b' (replicate (length (rewards b')) (Fin 1)))
               in length (importance_weights out) = length loss \<and>
                  (\<forall>i<length loss.
                     importance_weights out ! i = np_add (np_abs (loss ! i)) (Fin (SMALL_NUMBER cb))))
            else length (importance_weights out) = length (rewards out) \<and>
                 (\<forall>i<length (rewards out). importance_weights out ! i = Fin 1))"
proof -
  obtain b' where b': "n_step_adjuster (n_step_adjustment w) (discount w) b = Inr b'"
    using n_step_adjuster_total[OF assms] by blast
  show ?thesis
    using b' by (simp add: process_sample_if_necessary_def Let_def)
qed

theorem priority_weights_witness:
  "wf_batch example_batch \<and>
   process_sample_if_necessary (example_collab 2) (example_worker 2 None 1 True) example_batch =
     Inr (\<lparr>states = [100, 101], actions = [100, 101], rewards = [1, -3],
           next_states = [101, 102], terminals = [False, False],
           importance_weights = [Fin (1 + 1 / 1000000), Fin (3 + 1 / 1000000)]\<rparr>, 2) \<and>
   process_sample_if_necessary (example_collab 2) (example_worker 2 None 1 False) example_batch =
     Inr (\<lparr>states = [100, 101], actions = [100, 101], rewards = [1, -3],
           next_states = [101, 102], terminals = [False, False],
           importance_weights = [Fin 1, Fin 1]\<rparr>, 2)"
  using priority_weights [of example_batch "example_worker 2 None 1 True" "example_collab 2"]
  by (simp add: wf_batch_def example_batch_def example_worker_def example_collab_def
        init_worker_def process_sample_if_necessary_def n_step_adjuster_def with_weights_def)

text \<open>
  C9, as stated, fails: nothing clamps a loss that is not finite. With a loss of nan the
  emitted weights are nan.
\<close>

theorem priority_weights_nan_counterexample:
  "process_sample_if_necessary nan_collab (example_worker 2 None 1 True) example_batch =
     Inr (\<lparr>states = [100, 101], actions = [100, 101], rewards = [1, -3],
           next_states = [101, 102], terminals = [False, False],
           importance_weights = [NaN, NaN]\<rparr>, 2) \<and>
   \<not> np_isfinite NaN"
  by (simp add: example_batch_def example_worker_def example_collab_def nan_collab_def
        init_worker_def process_sample_if_necessary_def n_step_adjuster_def with_weights_def)

text \<open>
  C9, amended: with the weights switched on and a positive \<^verbatim>\<open>SMALL_NUMBER\<close>, the weight of
  every index whose loss is finite is finite and at least \<^verbatim>\<open>SMALL_NUMBER\<close>; the weight of
  an index whose loss is not finite is not finite either.
\<close>

theorem priority_weights_finite_iff:
  assumes "wf_batch b" "worker_computes_weights w" "0 < SMALL_NUMBER cb"
  shows "\<exists>b' out. n_step_adjuster (n_step_adjustment w) (discount w) b = Inr b' \<and>
           process_sample_if_necessary cb w b = Inr (out, length (rewards b')) \<and>
           (let loss = get_td_loss cb (agent w)
                         (with_weights b' (replicate (length (rewards b')) (Fin 1)))
            in length (importance_weights out) = length loss \<and>
               (\<forall>i<length loss.
                  (np_isfinite (loss ! i) \<longrightarrow>
                     (\<exists>x. importance_weights out ! i = Fin x \<and> SMALL_NUMBER cb \<le> x)) \<and>
                  (\<not> np_isfinite (loss ! i) \<longrightarrow> \<not> np_isfinite (importance_weights out ! i))))"
proof -
  obtain b' where b': "n_step_adjuster (n_step_adjustment w) (discount w) b = Inr b'"
    using n_step_adjuster_total[OF assms(1)] by blast
  have fin: "(np_isfinite l \<longrightarrow> (\<exists>x. np_add (np_abs l) (Fin e) = Fin x \<and> e \<le> x)) \<and>
             (\<not> np_isfinite l \<longrightarrow> \<not> np_isfinite (np_add (np_abs l) (Fin e)))" for l e
    by (cases l) auto
  show ?thesis
    using b' assms(2) fin by (simp add: process_sample_if_necessary_def Let_def)
qed

theorem priority_weights_finite_iff_witness:
  "wf_batch example_batch \<and> worker_computes_weights (example_worker 2 None 1 True) \<and>
   0 < SMALL_NUMBER (example_collab 2) \<and>
   process_sample_if_necessary (example_collab 2) (example_worker 2 None 1 True) example_batch =
     Inr (\<lparr>states = [100, 101], actions = [100, 101], rewards = [1, -3],
           next_states = [101, 102], terminals = [False, False],
           importance_weights = [Fin (1 + 1 / 1000000), Fin (3 + 1 / 1000000)]\<rparr>, 2) \<and>
   SMALL_NUMBER (example_collab 2) \<le> 1 + 1 / 1000000"
  using priority_weights_finite_iff [of example_batch "example_worker 2 None 1 True" "example_collab 2"]
  by (simp add: wf_batch_def example_batch_def example_worker_def example_collab_def
        init_worker_def process_sample_if_necessary_def n_step_adjuster_def with_weights_def)

subsection \<open>Workload statistics\<close>

lemma np_min_Nil [simp]: "np_min [] = Inl ValueError"
  by (simp add: np_min_def)

text \<open>
  C10: for a worker of at least one slot the guard \<^verbatim>\<open>len(self.finished_episode_rewards) > 0\<close>
  counts the slots and holds. So a call of \<^verbatim>\<open>get_workload_statistics\<close> before any episode
  has finished raises (the ValueError of \<^verbatim>\<open>np.min\<close> on the empty list), and no call
  returns the \<open>None\<close> placeholders.
\<close>

theorem workload_statistics_before_first_episode:
  assumes "0 < num_environments w" "length (finished_episode_rewards w) = num_environments w"
  shows "(concat (finished_episode_rewards w) = [] \<longrightarrow> get_workload_statistics w = Inl ValueError) \<and>
         (\<forall>st. get_workload_statistics w = Inr st \<longrightarrow>
            min_episode_reward st \<noteq> None \<and> max_episode_reward st \<noteq> None \<and>
            mean_episode_reward st \<noteq> None \<and> final_episode_reward st \<noteq> None)"
proof (rule conjI)
  show "concat (finished_episode_rewards w) = [] \<longrightarrow> get_workload_statistics w = Inl ValueError"
  proof
    assume "concat (finished_episode_rewards w) = []"
    then have "np_min (concat (finished_episode_rewards w)) = Inl ValueError"
      by (simp only: np_min_Nil)
    then show "get_workload_statistics w = Inl ValueError"
      using assms by (simp add: get_workload_statistics_def Let_def)
  qed
next
  show "\<forall>st. get_workload_statistics w = Inr st \<longrightarrow>
            min_episode_reward st \<noteq> None \<and> max_episode_reward st \<noteq> None \<and>
            mean_episode_reward st \<noteq> None \<and> final_episode_reward st \<noteq> None"
    using assms
    by (auto simp: get_workload_statistics_def Let_def bind_e_def split: sum.splits)
qed

theorem workload_statistics_before_first_episode_witness:
  "0 < num_environments (example_worker 2 None 1 True) \<and>
   length (finished_episode_rewards (example_worker 2 None 1 True)) = num_environments (example_worker 2 None 1 True) \<and>
   concat (finished_episode_rewards (example_worker 2 None 1 True)) = [] \<and>
   get_workload_statistics (example_worker 2 None 1 True) = Inl ValueError"
  using workload_statistics_before_first_episode [of "example_worker 2 None 1 True"]
  by (simp add: example_worker_def example_collab_def init_worker_def)

subsection \<open>The collection loop\<close>

lemma for_slots_0 [simp]: "for_slots 0 f x = x"
  by (simp add: for_slots_def)

lemma for_slots_Suc: "for_slots (Suc N) f x = f N (for_slots N f x)"
  by (simp add: for_slots_def)

lemma for_slots_induct:
  assumes "P 0 x" and "\<And>i y. i < N \<Longrightarrow> P i y \<Longrightarrow> P (Suc i) (f i y)"
  shows "P N (for_slots N f x)"
proof -
  have "k \<le> N \<Longrightarrow> P k (for_slots k f x)" for k
  proof (induction k)
    case 0
    then show ?case using assms(1) by simp
  next
    case (Suc k)
    then show ?case using assms(2)[of k "for_slots k f x"] by (simp add: for_slots_Suc)
  qed
  then show ?thesis by simp
qed

lemma map_nth_upt [simp]: "length xs = N \<Longrightarrow> map ((!) xs) [0..<N] = xs"
  by (auto simp: list_eq_iff_nth_eq)

lemma preprocess_states_loop:
  assumes "length (preprocessors w) = N" "length (preprocessed_states_buffer w) = N"
  shows "for_slots N (preprocess_states cb sts) w =
           w\<lparr>preprocessors := map (\<lambda>i. fst (preprocess_slot cb (preprocessors w ! i) (sts ! i))) [0..<N],
             preprocessed_states_buffer := map (\<lambda>i. snd (preprocess_slot cb (preprocessors w ! i) (sts ! i))) [0..<N]\<rparr>"
proof -
  define P where "P = (\<lambda>k y. y = w\<lparr>preprocessors := map (\<lambda>i. if i < k then fst (preprocess_slot cb (preprocessors w ! i) (sts ! i)) else preprocessors w ! i) [0..<N],
             preprocessed_states_buffer := map (\<lambda>i. if i < k then snd (preprocess_slot cb (preprocessors w ! i) (sts ! i)) else preprocessed_states_buffer w ! i) [0..<N]\<rparr>)"
  have "P N (for_slots N (preprocess_states cb sts) w)"
  proof (rule for_slots_induct[where P = P])
    show "P 0 w" using assms by (simp add: P_def)
  next
    fix i y assume i: "i < N" and y: "P i y"
    show "P (Suc i) (preprocess_states cb sts i y)"
      using i y unfolding P_def
      by (auto simp: preprocess_states_def split_beta Let_def list_eq_iff_nth_eq nth_list_update less_Suc_eq)
  qed
  then show ?thesis by (simp add: P_def)
qed

lemma record_step_loop:
  assumes "length (sample_states l) = N" "length (sample_actions l) = N"
  shows "for_slots N (record_step buf acts) l =
           l\<lparr>sample_states := map (\<lambda>i. sample_states l ! i @ [buf ! i]) [0..<N],
             sample_actions := map (\<lambda>i. sample_actions l ! i @ [acts ! i]) [0..<N]\<rparr>"
proof -
  define P where "P = (\<lambda>k y. y =
     l\<lparr>sample_states := map (\<lambda>i. if i < k then sample_states l ! i @ [buf ! i] else sample_states l ! i) [0..<N],
       sample_actions := map (\<lambda>i. if i < k then sample_actions l ! i @ [acts ! i] else sample_actions l ! i) [0..<N]\<rparr>)"
  have "P N (for_slots N (record_step buf acts) l)"
  proof (rule for_slots_induct[where P = P])
    show "P 0 l" using assms by (simp add: P_def)
  next
    fix i y assume i: "i < N" and y: "P i y"
    show "P (Suc i) (record_step buf acts i y)"
      using i y unfolding P_def
      by (auto simp: record_step_def list_eq_iff_nth_eq nth_list_update less_Suc_eq)
  qed
  then show ?thesis by (simp add: P_def)
qed

lemma account_frame_refl: "account_frame x x"
  by (cases x) (simp add: account_frame_def)

lemma account_slot_frame:
  assumes "account_frame x y"
  shows "account_frame x (account_slot cb m rs i y)"
  using assms
  by (cases x, cases y) (simp add: account_frame_def account_slot_def split_beta Let_def)

lemma account_loop_frame: "account_frame x (for_slots N (account_slot cb m rs) x)"
  by (rule for_slots_induct[where P = "\<lambda>k y. account_frame x y"])
     (simp_all add: account_frame_refl account_slot_frame)

lemma account_slot_other:
  "i \<noteq> k \<Longrightarrow> slot_view i (account_slot cb m rs k y) = slot_view i y"
  by (cases y) (simp add: account_slot_def slot_view_def split_beta Let_def)

lemma account_slot_self:
  assumes "slots_wide N y" "k < N"
  shows "slot_view k (account_slot cb m rs k y) =
           account_view cb m (rs ! k) (loop_terminals (snd y) ! k) k (vector_env (fst y)) (slot_view k y)"
  using assms
  by (cases y) (simp add: account_slot_def slot_view_def account_view_def slots_wide_def split_beta Let_def)

lemma account_slot_terminals [simp]:
  "loop_terminals (snd (account_slot cb m rs k y)) = loop_terminals (snd y)"
  by (cases y) (simp add: account_slot_def split_beta Let_def)

lemma account_slot_wide:
  "slots_wide N y \<Longrightarrow> slots_wide N (account_slot cb m rs k y)"
  by (cases y) (simp add: account_slot_def slots_wide_def split_beta Let_def)

lemma account_loop_view:
  fixes x :: "('s, 'e, 'q, 'g) worker \<times> ('s, 'a) locals"
  assumes "slots_wide N x"
  shows "slots_wide N (for_slots N (account_slot cb m rs) x) \<and>
         loop_terminals (snd (for_slots N (account_slot cb m rs) x)) = loop_terminals (snd x) \<and>
         (\<forall>i<N. \<exists>e. slot_view i (for_slots N (account_slot cb m rs) x) =
                    account_view cb m (rs ! i) (loop_terminals (snd x) ! i) i e (slot_view i x))"
proof -
  define P where "P = (\<lambda>k (y :: ('s, 'e, 'q, 'g) worker \<times> ('s, 'a) locals).
     slots_wide N y \<and> loop_terminals (snd y) = loop_terminals (snd x) \<and>
     (\<forall>i<N. if i < k
        then (\<exists>e. slot_view i y = account_view cb m (rs ! i) (loop_terminals (snd x) ! i) i e (slot_view i x))
        else slot_view i y = slot_view i x))"
  have "P N (for_slots N (account_slot cb m rs) x)"
  proof (rule for_slots_induct[where P = P])
    show "P 0 x" using assms by (simp add: P_def)
  next
    fix k y assume k: "k < N" and y: "P k y"
    have wide: "slots_wide N y" and t: "loop_terminals (snd y) = loop_terminals (snd x)"
      using y by (simp_all add: P_def)
    have "if i < Suc k
        then (\<exists>e. slot_view i (account_slot cb m rs k y) =
                account_view cb m (rs ! i) (loop_terminals (snd x) ! i) i e (slot_view i x))
        else slot_view i (account_slot cb m rs k y) = slot_view i x" if i: "i < N" for i
    proof (cases "i = k")
      case True
      have "slot_view k y = slot_view k x" using y k by (simp add: P_def)
      then show ?thesis using account_slot_self[OF wide k, of cb m rs] True t by auto
    next
      case False
      then show ?thesis using y i account_slot_other[OF False, of cb m rs y]
        by (auto simp: P_def less_Suc_eq)
    qed
    then show "P (Suc k) (account_slot cb m rs k y)"
      using wide t by (simp add: P_def account_slot_wide)
  qed
  then show ?thesis by (simp add: P_def)
qed

lemma contract_actions:
  assumes "contract cb N" "length sts = N" "get_action cb g sts explore = (ag, acts)"
  shows "length acts = N"
proof -
  have "length (snd (get_action cb g sts explore)) = N"
    using assms(1,2) unfolding contract_def by blast
  then show ?thesis using assms(3) by simp
qed

lemma contract_step:
  assumes "contract cb N" "length acts = N" "env_step cb e acts = (e', nxt, rs, ts)"
  shows "length nxt = N" "length rs = N" "length ts = N"
proof -
  have "length (fst (snd (env_step cb e acts))) = N \<and>
        length (fst (snd (snd (env_step cb e acts)))) = N \<and>
        length (snd (snd (snd (env_step cb e acts)))) = N"
    using assms(1,2) unfolding contract_def by blast
  then show "length nxt = N" "length rs = N" "length ts = N" using assms(3) by simp_all
qed

lemma account_slot_config:
  "n_step_adjustment (fst (account_slot cb m rs i y)) = n_step_adjustment (fst y)"
  by (cases y) (simp add: account_slot_def split_beta Let_def)

lemma account_loop_config:
  "n_step_adjustment (fst (for_slots N (account_slot cb m rs) x)) = n_step_adjustment (fst x)"
  by (rule for_slots_induct[where P = "\<lambda>k y. n_step_adjustment (fst y) = n_step_adjustment (fst x)"])
     (simp_all add: account_slot_config)

lemma loop_body_pass:
  fixes w :: "('s, 'e, 'q, 'g) worker" and l :: "('s, 'a) locals"
  assumes c: "contract cb N" and wf: "wf_state N n (w, l)"
  shows "\<exists>w' l' ag' acts env' nxt rs ts.
           loop_body cb explore m (w, l) = Inr (w', l') \<and> wf_state N (Suc n) (w', l') \<and>
           get_action cb (agent w)
             (map (\<lambda>i. snd (preprocess_slot cb (preprocessors w ! i) (env_states l ! i))) [0..<N])
             explore = (ag', acts) \<and>
           env_step cb (vector_env w) acts = (env', nxt, rs, ts) \<and>
           loop_terminals l' = ts \<and>
           n_step_adjustment w' = n_step_adjustment w \<and>
           (\<forall>i<N. \<exists>e. slot_view i (w', l') =
              account_view cb m (rs ! i) (ts ! i) i e
                \<lparr>sv_finished_rewards = finished_episode_rewards w ! i,
                 sv_finished_timesteps = finished_episode_timesteps w ! i,
                 sv_preprocessor = fst (preprocess_slot cb (preprocessors w ! i) (env_states l ! i)),
                 sv_episode_reward = current_episode_rewards l ! i,
                 sv_episode_timesteps = current_episode_timesteps l ! i,
                 sv_sample_rewards = sample_rewards l ! i,
                 sv_sample_terminals = sample_terminals l ! i,
                 sv_env_state = nxt ! i,
                 sv_next_state = nxt ! i\<rparr>)"
proof -
  have N: "num_environments w = N" and ww: "wf_worker w" and wl: "wf_locals N n l"
    using wf by (simp_all add: wf_state_def)
  define w1 where "w1 = for_slots N (preprocess_states cb (env_states l)) w"
  have w1: "w1 = w\<lparr>preprocessors := map (\<lambda>i. fst (preprocess_slot cb (preprocessors w ! i) (env_states l ! i))) [0..<N],
             preprocessed_states_buffer := map (\<lambda>i. snd (preprocess_slot cb (preprocessors w ! i) (env_states l ! i))) [0..<N]\<rparr>"
    unfolding w1_def using ww N by (intro preprocess_states_loop) (simp_all add: wf_worker_def)
  obtain ag' acts where ga:
    "get_action cb (agent w1) (preprocessed_states_buffer w1) explore = (ag', acts)"
    by (cases "get_action cb (agent w1) (preprocessed_states_buffer w1) explore")
  have lb: "length (preprocessed_states_buffer w1) = N" by (simp add: w1)
  have acts: "length acts = N" by (rule contract_actions[OF c lb ga])
  define l1 where "l1 = for_slots N (record_step (preprocessed_states_buffer w1) acts) l"
  have l1: "l1 = l\<lparr>sample_states := map (\<lambda>i. sample_states l ! i @ [preprocessed_states_buffer w1 ! i]) [0..<N],
             sample_actions := map (\<lambda>i. sample_actions l ! i @ [acts ! i]) [0..<N]\<rparr>"
    unfolding l1_def using wl by (intro record_step_loop) (simp_all add: wf_locals_def)
  obtain env' nxt rs ts where es: "env_step cb (vector_env w1) acts = (env', nxt, rs, ts)"
    by (cases "env_step cb (vector_env w1) acts") auto
  have lens: "length nxt = N" "length rs = N" "length ts = N"
    using contract_step[OF c acts es] by simp_all
  define x where "x = (w1\<lparr>agent := ag', vector_env := env'\<rparr>,
                         l1\<lparr>timesteps_executed := timesteps_executed l1 + int N,
                            env_frames := env_frames l1 + int N,
                            loop_next_states := nxt,
                            env_states := nxt,
                            loop_terminals := ts\<rparr>)"
  define y where "y = for_slots N (account_slot cb m rs) x"
  have body: "loop_body cb explore m (w, l) = Inr y"
    using N wl lens acts
    by (simp add: loop_body_def Let_def w1_def[symmetric] ga l1_def[symmetric] es x_def y_def
          wf_locals_def)
  have wide: "slots_wide N x"
    using ww wl N lens by (simp add: x_def slots_wide_def w1 l1 wf_worker_def wf_locals_def)
  have fr: "account_frame x y" unfolding y_def by (rule account_loop_frame)
  have vw: "\<forall>i<N. \<exists>e. slot_view i y =
                    account_view cb m (rs ! i) (loop_terminals (snd x) ! i) i e (slot_view i x)"
    using account_loop_view[OF wide, of cb m rs] by (simp add: y_def)
  obtain w' l' where y: "y = (w', l')" by (cases y)
  have sr: "length (sample_rewards l' ! i) = Suc n \<and> length (sample_terminals l' ! i) = Suc n"
    if i: "i < N" for i
  proof -
    obtain e where "slot_view i y =
        account_view cb m (rs ! i) (loop_terminals (snd x) ! i) i e (slot_view i x)"
      using vw i by blast
    then have "sv_sample_rewards (slot_view i y) = sv_sample_rewards (slot_view i x) @ [rs ! i]"
      "sv_sample_terminals (slot_view i y) = sv_sample_terminals (slot_view i x) @ [loop_terminals (snd x) ! i]"
      by (simp_all add: account_view_def)
    then show ?thesis using wl i by (simp add: y x_def slot_view_def l1 wf_locals_def)
  qed
  have fr': "account_frame (w1\<lparr>agent := ag', vector_env := env'\<rparr>,
                         l1\<lparr>timesteps_executed := timesteps_executed l1 + int N,
                            env_frames := env_frames l1 + int N,
                            loop_next_states := nxt,
                            env_states := nxt,
                            loop_terminals := ts\<rparr>) (w', l')"
    using fr by (simp add: y x_def)
  have fw: "num_environments w' = N"
    "length (preprocessed_states_buffer w') = N"
    "length (last_states w') = N" "length (last_ep_timesteps w') = N"
    "length (last_ep_rewards w') = N" "length (finished_episode_rewards w') = N"
    "length (finished_episode_timesteps w') = N" "length (preprocessors w') = N"
    using fr' ww N by (simp_all add: account_frame_def w1 wf_worker_def)
  have fl: "timesteps_executed l' = timesteps_executed l + int N"
    "env_frames l' = env_frames l + int N"
    "sample_states l' = sample_states l1" "sample_actions l' = sample_actions l1"
    "length (loop_terminals l') = N" "length (current_episode_timesteps l') = N"
    "length (current_episode_rewards l') = N" "length (sample_rewards l') = N"
    "length (sample_terminals l') = N" "length (episodes_executed_call l') = N"
    "length (env_states l') = N" "length (loop_next_states l') = N"
    using fr' wl lens by (simp_all add: account_frame_def l1 wf_locals_def)
  have ss: "length (sample_states l1 ! i) = Suc n \<and> length (sample_actions l1 ! i) = Suc n"
    if i: "i < N" for i
    using wl i by (simp add: l1 wf_locals_def)
  have t: "timesteps_executed l = int n * int N" "env_frames l = int n * int N"
    "length (sample_states l1) = N" "length (sample_actions l1) = N"
    using wl by (simp_all add: wf_locals_def l1)
  have "wf_worker w'" using fw by (simp add: wf_worker_def)
  moreover have "wf_locals N (Suc n) l'"
    unfolding wf_locals_def using fl ss sr t by (simp add: algebra_simps)
  ultimately have wf': "wf_state N (Suc n) (w', l')" using fw(1) by (simp add: wf_state_def)
  have ga': "get_action cb (agent w)
             (map (\<lambda>i. snd (preprocess_slot cb (preprocessors w ! i) (env_states l ! i))) [0..<N])
             explore = (ag', acts)"
    using ga by (simp add: w1)
  have es': "env_step cb (vector_env w) acts = (env', nxt, rs, ts)"
    using es by (simp add: w1)
  have lt: "loop_terminals l' = ts" using fr' by (simp add: account_frame_def)
  have "n_step_adjustment (fst y) = n_step_adjustment (fst x)"
    unfolding y_def by (rule account_loop_config)
  then have k: "n_step_adjustment w' = n_step_adjustment w"
    by (simp add: y x_def w1)
  have sx: "slot_view i x =
      \<lparr>sv_finished_rewards = finished_episode_rewards w ! i,
       sv_finished_timesteps = finished_episode_timesteps w ! i,
       sv_preprocessor = fst (preprocess_slot cb (preprocessors w ! i) (env_states l ! i)),
       sv_episode_reward = current_episode_rewards l ! i,
       sv_episode_timesteps = current_episode_timesteps l ! i,
       sv_sample_rewards = sample_rewards l ! i,
       sv_sample_terminals = sample_terminals l ! i,
       sv_env_state = nxt ! i,
       sv_next_state = nxt ! i\<rparr>" if "i < N" for i
    using that by (simp add: x_def slot_view_def w1 l1)
  have vw': "\<forall>i<N. \<exists>e. slot_view i (w', l') =
              account_view cb m (rs ! i) (ts ! i) i e
                \<lparr>sv_finished_rewards = finished_episode_rewards w ! i,
                 sv_finished_timesteps = finished_episode_timesteps w ! i,
                 sv_preprocessor = fst (preprocess_slot cb (preprocessors w ! i) (env_states l ! i)),
                 sv_episode_reward = current_episode_rewards l ! i,
                 sv_episode_timesteps = current_episode_timesteps l ! i,
                 sv_sample_rewards = sample_rewards l ! i,
                 sv_sample_terminals = sample_terminals l ! i,
                 sv_env_state = nxt ! i,
                 sv_next_state = nxt ! i\<rparr>"
  proof (intro allI impI)
    fix i assume i: "i < N"
    obtain e where "slot_view i y =
        account_view cb m (rs ! i) (loop_terminals (snd x) ! i) i e (slot_view i x)"
      using vw i by blast
    then show "\<exists>e. slot_view i (w', l') =
              account_view cb m (rs ! i) (ts ! i) i e
                \<lparr>sv_finished_rewards = finished_episode_rewards w ! i,
                 sv_finished_timesteps = finished_episode_timesteps w ! i,
                 sv_preprocessor = fst (preprocess_slot cb (preprocessors w ! i) (env_states l ! i)),
                 sv_episode_reward = current_episode_rewards l ! i,
                 sv_episode_timesteps = current_episode_timesteps l ! i,
                 sv_sample_rewards = sample_rewards l ! i,
                 sv_sample_terminals = sample_terminals l ! i,
                 sv_env_state = nxt ! i,
                 sv_next_state = nxt ! i\<rparr>"
      unfolding sx[OF i, symmetric] using y by (intro exI[of _ e]) (simp add: x_def)
  qed
  show ?thesis using body y wf' ga' es' lt k vw' by blast
qed

lemma loop_body_wf:
  fixes w :: "('s, 'e, 'q, 'g) worker" and l :: "('s, 'a) locals"
  assumes "contract cb N" "wf_state N n (w, l)"
  shows "\<exists>w' l'. loop_body cb explore m (w, l) = Inr (w', l') \<and> wf_state N (Suc n) (w', l') \<and>
           n_step_adjustment w' = n_step_adjustment w"
  using loop_body_pass[OF assms, of explore m] by blast

lemma wf_state_steps:
  "wf_state N n (w, l) \<Longrightarrow> timesteps_executed l = int n * int N"
  by (simp add: wf_state_def wf_locals_def)

lemma wf_init_locals:
  "wf_worker w \<Longrightarrow> num_environments w = N \<Longrightarrow> wf_state N 0 (w, init_locals cb w)"
  by (simp add: wf_state_def wf_locals_def init_locals_def wf_worker_def)

lemma assemble_loop:
  fixes w2 :: "('s, 'e, 'q, 'g) worker" and l :: "('s, 'a) locals"
  assumes wl: "wf_locals N n l" and n: "0 < n"
  shows "\<exists>ps b. for_slots N (assemble_slot cb l)
                  (w2, \<lparr>states = [], actions = [], rewards = [], next_states = [], terminals = []\<rparr>)
                = (w2\<lparr>preprocessors := ps\<rparr>, b) \<and>
               length ps = length (preprocessors w2) \<and> wf_batch b \<and> length (states b) = N * n"
proof -
  define P where "P = (\<lambda>k (y :: ('s, 'e, 'q, 'g) worker \<times> ('s, 'a) batch).
     (\<exists>ps. fst y = w2\<lparr>preprocessors := ps\<rparr> \<and> length ps = length (preprocessors w2)) \<and>
     length (states (snd y)) = k * n \<and> length (actions (snd y)) = k * n \<and>
     length (rewards (snd y)) = k * n \<and> length (next_states (snd y)) = k * n \<and>
     length (terminals (snd y)) = k * n)"
  have "P N (for_slots N (assemble_slot cb l)
               (w2, \<lparr>states = [], actions = [], rewards = [], next_states = [], terminals = []\<rparr>))"
  proof (rule for_slots_induct[where P = P])
    show "P 0 (w2, \<lparr>states = [], actions = [], rewards = [], next_states = [], terminals = []\<rparr>)"
      by (simp add: P_def) (rule exI[of _ "preprocessors w2"], simp)
  next
    fix i y assume i: "i < N" and y: "P i y"
    obtain w' b where yy: "y = (w', b)" by (cases y)
    obtain ps where ps: "w' = w2\<lparr>preprocessors := ps\<rparr>" "length ps = length (preprocessors w2)"
      using y by (auto simp: P_def yy)
    have len: "length (sample_states l ! i) = n" "length (sample_actions l ! i) = n"
      "length (sample_rewards l ! i) = n" "length (sample_terminals l ! i) = n"
      using wl i by (simp_all add: wf_locals_def)
    have tl: "length (tl (sample_states l ! i)) + 1 = n" using len n by simp
    have "\<exists>ps'. fst (assemble_slot cb l i y) = w2\<lparr>preprocessors := ps'\<rparr> \<and>
                length ps' = length (preprocessors w2)"
      unfolding yy ps(1) using ps(2)
      by (cases "loop_terminals l ! i") (auto simp: assemble_slot_def split_beta Let_def)
    moreover have "length (states (snd (assemble_slot cb l i y))) = Suc i * n"
      "length (actions (snd (assemble_slot cb l i y))) = Suc i * n"
      "length (rewards (snd (assemble_slot cb l i y))) = Suc i * n"
      "length (next_states (snd (assemble_slot cb l i y))) = Suc i * n"
      "length (terminals (snd (assemble_slot cb l i y))) = Suc i * n"
      using y len tl by (simp_all add: P_def yy assemble_slot_def split_beta Let_def)
    ultimately show "P (Suc i) (assemble_slot cb l i y)" unfolding P_def by blast
  qed
  then show ?thesis
    by (cases "for_slots N (assemble_slot cb l)
               (w2, \<lparr>states = [], actions = [], rewards = [], next_states = [], terminals = []\<rparr>)")
       (auto simp: P_def wf_batch_def)
qed

lemma process_sample_total:
  assumes "wf_batch b"
  shows "\<exists>out k. process_sample_if_necessary cb w b = Inr (out, k)"
proof -
  obtain b' where "n_step_adjuster (n_step_adjustment w) (discount w) b = Inr b'"
    using n_step_adjuster_total[OF assms] by blast
  then show ?thesis by (simp add: process_sample_if_necessary_def Let_def)
qed

lemmas ev = execute_and_get_timesteps_def noted_time_def collect_loop.simps loop_body_def init_locals_def
  example_worker_def example_collab_def init_worker_def for_slots_def preprocess_states_def
  preprocess_slot_def record_step_def account_slot_def break_now_def store_carry_def
  assemble_slot_def process_sample_if_necessary_def n_step_adjuster_def with_weights_def
  del_from_def index_def assign_def Let_def upt_conv_Cons

lemma contract_example: "contract (example_collab N) N"
  by (simp add: contract_def example_collab_def)

lemma wf_example_worker: "wf_worker (example_worker N pre k c)"
  by (simp add: wf_worker_def example_worker_def init_worker_def example_collab_def)

lemma replicate_2: "replicate 2 x = [x, x]"
  by (simp add: numeral_2_eq_2)

lemma replicate_3: "replicate 3 x = [x, x, x]"
  by (simp add: numeral_3_eq_3)

subsection \<open>The n-step window on the assembled batch\<close>

text \<open>
  C4 does not hold of the code. The batch holds the trajectory of slot 0, then that of
  slot 1, and the window runs over the flat lists. Two slots, two steps each, factor 2:
  index 1 is the last transition of slot 0 (state 101), the window reads index 2, the
  first transition of slot 1, and the emitted transition has the reward
  \<open>1 + 1/2 * 2\<close> and the next state 201 of slot 1.
\<close>

theorem n_step_window_crosses_slots:
  "map_option (map_sum id (es_sample_batch \<circ> snd))
     (execute_and_get_timesteps (example_collab 2) 1 (example_worker 2 None 2 False) 4 0 True False)
   = Some (Inr \<lparr>states = [100, 101, 200], actions = [100, 101, 200],
                 rewards = [3 / 2, 2, 3], next_states = [102, 201, 202],
                 terminals = [False, False, False],
                 importance_weights = [Fin 1, Fin 1, Fin 1]\<rparr>)"
  by (simp add: ev)

subsection \<open>The passes of a call\<close>

lemma iterate_body_add:
  "iterate_body cb explore m (a + b) x =
     bind_e (iterate_body cb explore m a x) (iterate_body cb explore m b)"
proof (induction a arbitrary: x)
  case 0
  then show ?case by simp
next
  case (Suc a)
  then show ?case by (cases "loop_body cb explore m x") simp_all
qed

lemma bind_e_Inr [simp]: "bind_e r Inr = r"
  by (cases r) simp_all

lemma iterate_body_wf:
  fixes x :: "('s, 'e, 'q, 'g) worker \<times> ('s, 'a) locals"
  assumes "contract cb N" "wf_state N n x"
  shows "\<exists>y. iterate_body cb explore m j x = Inr y \<and> wf_state N (n + j) y \<and>
           n_step_adjustment (fst y) = n_step_adjustment (fst x)"
  using assms(2)
proof (induction j arbitrary: n x)
  case 0
  then show ?case by simp
next
  case (Suc j)
  obtain w l where x: "x = (w, l)" by (cases x)
  obtain w1 l1 where b: "loop_body cb explore m (w, l) = Inr (w1, l1)"
    and wf1: "wf_state N (Suc n) (w1, l1)" and k: "n_step_adjustment w1 = n_step_adjustment w"
    using loop_body_wf[OF assms(1), of n w l explore m] Suc.prems x by blast
  from Suc.IH[OF wf1] obtain y where "iterate_body cb explore m j (w1, l1) = Inr y"
    "wf_state N (Suc n + j) y" "n_step_adjustment (fst y) = n_step_adjustment (fst (w1, l1))"
    by blast
  then show ?case using b k x by simp
qed


lemma collect_loop_passes:
  fixes w :: "('s, 'e, 'q, 'g) worker" and l :: "('s, 'a) locals"
  assumes c: "contract cb N" and N: "0 < N"
    and wf: "wf_state N n (w, l)" and lt: "int n * int N < num"
  shows "\<exists>w' l' n'. n < n' \<and> int n' * int N < num + int N \<and>
           (\<not> break_on_terminal \<longrightarrow> num \<le> int n' * int N) \<and>
           iterate_body cb explore m (n' - n) (w, l) = Inr (w', l') \<and>
           wf_state N n' (w', l') \<and>
           collect_loop cb num m explore break_on_terminal (w, l) =
             Some (Inr (w'\<lparr>total_worker_steps := total_worker_steps w' + timesteps_executed l'\<rparr>, l'))"
  using wf lt
proof (induction "nat (num - int n * int N)" arbitrary: n w l rule: less_induct)
  case less
  obtain w1 l1 where body: "loop_body cb explore m (w, l) = Inr (w1, l1)"
    and wf1: "wf_state N (Suc n) (w1, l1)"
    using loop_body_wf[OF c less.prems(1)] by blast
  have t: "timesteps_executed l = int n * int N" using less.prems(1) by (rule wf_state_steps)
  have t1: "timesteps_executed l1 = int (Suc n) * int N" using wf1 by (rule wf_state_steps)
  have unf: "collect_loop cb num m explore break_on_terminal (w, l) =
      (if break_now num break_on_terminal l1
       then Some (Inr (w1\<lparr>total_worker_steps := total_worker_steps w1 + timesteps_executed l1\<rparr>, l1))
       else collect_loop cb num m explore break_on_terminal (w1, l1))"
    using less.prems(2) t body by (subst collect_loop.simps) simp
  have "0 \<le> int n * int N" by simp
  then have pos: "0 < num" using less.prems(2) by linarith
  show ?case
  proof (cases "break_now num break_on_terminal l1")
    case True
    then have "\<not> break_on_terminal \<longrightarrow> num \<le> int (Suc n) * int N"
      using t1 by (auto simp: break_now_def)
    moreover have "int (Suc n) * int N < num + int N" using less.prems(2) by (simp add: algebra_simps)
    moreover have "iterate_body cb explore m (Suc n - n) (w, l) = Inr (w1, l1)"
      using body by simp
    ultimately show ?thesis
      using unf True wf1 by (intro exI[of _ w1] exI[of _ l1] exI[of _ "Suc n"]) simp
  next
    case False
    then have "\<not> num \<le> int (Suc n) * int N" using pos t1 by (auto simp: break_now_def)
    then have lt1: "int (Suc n) * int N < num" by simp
    have dec: "nat (num - int (Suc n) * int N) < nat (num - int n * int N)"
      using lt1 N by (simp add: algebra_simps)
    obtain w' l' n' where r: "Suc n < n'" "int n' * int N < num + int N"
      "\<not> break_on_terminal \<longrightarrow> num \<le> int n' * int N"
      "iterate_body cb explore m (n' - Suc n) (w1, l1) = Inr (w', l')"
      "wf_state N n' (w', l')"
      "collect_loop cb num m explore break_on_terminal (w1, l1) =
         Some (Inr (w'\<lparr>total_worker_steps := total_worker_steps w' + timesteps_executed l'\<rparr>, l'))"
      using less.hyps[OF dec wf1 lt1] by blast
    have "n' - n = Suc (n' - Suc n)" using r(1) by simp
    then have "iterate_body cb explore m (n' - n) (w, l) = Inr (w', l')"
      using body r(4) by simp
    then show ?thesis using unf False r
      by (intro exI[of _ w'] exI[of _ l'] exI[of _ n']) simp
  qed
qed

lemma execute_passes:
  fixes w :: "('s, 'e, 'q, 'g) worker"
  assumes c: "contract cb N" and ww: "wf_worker w" and N: "num_environments w = N" "0 < N"
    and num: "0 < num"
  shows "\<exists>n w1 (l1 :: ('s, 'a) locals) ps b out k.
           0 < n \<and> int n * int N < num + int N \<and>
           (\<not> break_on_terminal \<longrightarrow> num \<le> int n * int N) \<and>
           iterate_body cb explore m n (w, init_locals cb w) = Inr (w1, l1) \<and>
           wf_state N n (w1, l1) \<and>
           for_slots N (assemble_slot cb l1)
             (store_carry (noted_time elapsed)
                (w1\<lparr>total_worker_steps := total_worker_steps w1 + timesteps_executed l1\<rparr>, l1),
              \<lparr>states = [], actions = [], rewards = [], next_states = [], terminals = []\<rparr>)
             = ((store_carry (noted_time elapsed)
                  (w1\<lparr>total_worker_steps := total_worker_steps w1 + timesteps_executed l1\<rparr>, l1))
                \<lparr>preprocessors := ps\<rparr>, b) \<and>
           wf_batch b \<and> length (states b) = N * n \<and>
           process_sample_if_necessary cb
             ((store_carry (noted_time elapsed)
                  (w1\<lparr>total_worker_steps := total_worker_steps w1 + timesteps_executed l1\<rparr>, l1))
                \<lparr>preprocessors := ps\<rparr>) b = Inr (out, k) \<and>
           execute_and_get_timesteps cb elapsed w num m explore break_on_terminal =
             Some (Inr ((store_carry (noted_time elapsed)
                  (w1\<lparr>total_worker_steps := total_worker_steps w1 + timesteps_executed l1\<rparr>, l1))
                \<lparr>preprocessors := ps\<rparr>,
                \<lparr>es_sample_batch = out, es_batch_size = k, es_runtime = noted_time elapsed,
                 es_timesteps_executed = int n * int N,
                 es_ops_per_second = real_of_int (int n * int N) / noted_time elapsed\<rparr>))"
proof -
  have wf0: "wf_state N 0 (w, init_locals cb w :: ('s, 'a) locals)"
    using ww N(1) by (rule wf_init_locals)
  obtain w1 and l1 :: "('s, 'a) locals" and n where
    n: "0 < n" and bounds: "int n * int N < num + int N"
      "\<not> break_on_terminal \<longrightarrow> num \<le> int n * int N"
    and it: "iterate_body cb explore m n (w, init_locals cb w) = Inr (w1, l1)"
    and wf1: "wf_state N n (w1, l1)"
    and loop: "collect_loop cb num m explore break_on_terminal (w, init_locals cb w) =
       Some (Inr (w1\<lparr>total_worker_steps := total_worker_steps w1 + timesteps_executed l1\<rparr>, l1))"
    using collect_loop_passes[OF c N(2) wf0, of num break_on_terminal explore m] num by auto
  define w2 where "w2 = store_carry (noted_time elapsed)
     (w1\<lparr>total_worker_steps := total_worker_steps w1 + timesteps_executed l1\<rparr>, l1)"
  have N2: "num_environments w2 = N" using wf1 by (simp add: w2_def store_carry_def wf_state_def)
  have wl: "wf_locals N n l1" using wf1 by (simp add: wf_state_def)
  have t: "timesteps_executed l1 = int n * int N" using wf1 by (rule wf_state_steps)
  obtain ps b where asm: "for_slots N (assemble_slot cb l1)
        (w2, \<lparr>states = [], actions = [], rewards = [], next_states = [], terminals = []\<rparr>)
      = (w2\<lparr>preprocessors := ps\<rparr>, b)" and wb: "wf_batch b" and lb: "length (states b) = N * n"
    using assemble_loop[OF wl n, of cb w2] by blast
  obtain out k where ps: "process_sample_if_necessary cb (w2\<lparr>preprocessors := ps\<rparr>) b = Inr (out, k)"
    using process_sample_total[OF wb] by blast
  have "execute_and_get_timesteps cb elapsed w num m explore break_on_terminal =
          Some (Inr (w2\<lparr>preprocessors := ps\<rparr>,
                     \<lparr>es_sample_batch = out, es_batch_size = k, es_runtime = noted_time elapsed,
                      es_timesteps_executed = timesteps_executed l1,
                      es_ops_per_second = real_of_int (timesteps_executed l1) / noted_time elapsed\<rparr>))"
    by (simp add: execute_and_get_timesteps_def loop Let_def w2_def[symmetric] N2 asm ps)
  then have "execute_and_get_timesteps cb elapsed w num m explore break_on_terminal =
          Some (Inr (w2\<lparr>preprocessors := ps\<rparr>,
                     \<lparr>es_sample_batch = out, es_batch_size = k, es_runtime = noted_time elapsed,
                      es_timesteps_executed = int n * int N,
                      es_ops_per_second = real_of_int (int n * int N) / noted_time elapsed\<rparr>))"
    using t by simp
  then show ?thesis using n bounds it wf1 asm wb lb ps unfolding w2_def by blast
qed

lemma process_sample_size:
  assumes wb: "wf_batch b" and ps: "process_sample_if_necessary cb w b = Inr (out, k)"
  shows "k = length (rewards out)"
    "length (states out) = k \<and> length (actions out) = k \<and>
     length (next_states out) = k \<and> length (terminals out) = k"
    "n_step_adjustment w \<le> 1 \<longrightarrow> k = length (states b)"
    "1 < n_step_adjustment w \<and> n_step_adjustment w - 1 \<le> int (length (states b)) \<longrightarrow>
       k = length (states b) - nat (n_step_adjustment w - 1)"
proof -
  obtain b' n where b': "n_step_adjuster (n_step_adjustment w) (discount w) b = Inr b'"
    and n: "n \<le> length (states b)" "states b' = take n (states b)"
      "actions b' = take n (actions b)" "terminals b' = take n (terminals b)"
      "length (rewards b') = n" "length (next_states b') = n"
      "1 < n_step_adjustment w \<and> n_step_adjustment w - 1 \<le> int (length (states b)) \<longrightarrow>
         n = length (states b) - nat (n_step_adjustment w - 1)"
      "n_step_adjustment w \<le> 1 \<longrightarrow> n = length (states b)"
    using n_step_adjuster_prefix[OF wb, of "n_step_adjustment w" "discount w"] by blast
  have out: "rewards out = rewards b'" "states out = map (ray_compress cb) (states b')"
    "actions out = actions b'" "next_states out = map (ray_compress cb) (next_states b')"
    "terminals out = terminals b'" and k: "k = length (rewards b')"
    using ps b' by (auto simp: process_sample_if_necessary_def Let_def)
  show "k = length (rewards out)" using out k by simp
  show "length (states out) = k \<and> length (actions out) = k \<and>
     length (next_states out) = k \<and> length (terminals out) = k"
    using out n k wb by (simp add: wf_batch_def)
  show "n_step_adjustment w \<le> 1 \<longrightarrow> k = length (states b)" using k n by simp
  show "1 < n_step_adjustment w \<and> n_step_adjustment w - 1 \<le> int (length (states b)) \<longrightarrow>
       k = length (states b) - nat (n_step_adjustment w - 1)" using k n by simp
qed

subsection \<open>Collected timesteps\<close>

text \<open>
  C1: for a worker of \<open>N \<ge> 1\<close> slots and a budget \<open>num_timesteps > 0\<close>, a call with
  \<open>break_on_terminal\<close> false returns after \<open>n\<close> passes of the loop and reports
  \<open>n * N\<close> executed timesteps, the least multiple of \<open>N\<close> that is at least
  \<open>num_timesteps\<close>, so less than \<open>num_timesteps + N\<close>. That many transitions are
  collected: every slot has recorded \<open>n\<close> states, actions, rewards and terminals, each of
  the five lists of the batch put together from them has \<open>n * N\<close> entries, and each list
  of the emitted batch has \<^verbatim>\<open>batch_size\<close> entries, which is \<open>n * N\<close> for an n-step factor
  \<open>k \<le> 1\<close> and \<open>n * N - (k - 1)\<close> for \<open>k > 1\<close>.
\<close>

theorem collected_timesteps:
  fixes w :: "('s, 'e, 'q, 'g) worker"
  assumes "contract cb N" "wf_worker w" "num_environments w = N" "0 < N" "0 < num_timesteps"
  shows "\<exists>w' s n w1 (l1 :: ('s, 'a) locals) b.
           execute_and_get_timesteps cb elapsed w num_timesteps max_timesteps_per_episode
             use_exploration False = Some (Inr (w', s)) \<and>
           es_timesteps_executed s = int n * int N \<and>
           num_timesteps \<le> es_timesteps_executed s \<and>
           es_timesteps_executed s < num_timesteps + int N \<and>
           (\<forall>t. int N dvd t \<and> num_timesteps \<le> t \<longrightarrow> es_timesteps_executed s \<le> t) \<and>
           iterate_body cb use_exploration max_timesteps_per_episode n (w, init_locals cb w)
             = Inr (w1, l1) \<and>
           (\<forall>i<N. length (sample_states l1 ! i) = n \<and> length (sample_actions l1 ! i) = n \<and>
                   length (sample_rewards l1 ! i) = n \<and> length (sample_terminals l1 ! i) = n) \<and>
           snd (for_slots N (assemble_slot cb l1)
                  (store_carry (noted_time elapsed)
                     (w1\<lparr>total_worker_steps := total_worker_steps w1 + timesteps_executed l1\<rparr>, l1),
                   \<lparr>states = [], actions = [], rewards = [], next_states = [], terminals = []\<rparr>))
             = b \<and>
           wf_batch b \<and> int (length (states b)) = es_timesteps_executed s \<and>
           process_sample_if_necessary cb w' b = Inr (es_sample_batch s, es_batch_size s) \<and>
           es_batch_size s = length (rewards (es_sample_batch s)) \<and>
           length (states (es_sample_batch s)) = es_batch_size s \<and>
           length (actions (es_sample_batch s)) = es_batch_size s \<and>
           length (next_states (es_sample_batch s)) = es_batch_size s \<and>
           length (terminals (es_sample_batch s)) = es_batch_size s \<and>
           (n_step_adjustment w \<le> 1 \<longrightarrow> int (es_batch_size s) = es_timesteps_executed s) \<and>
           (1 < n_step_adjustment w \<and> n_step_adjustment w - 1 \<le> es_timesteps_executed s \<longrightarrow>
              int (es_batch_size s) = es_timesteps_executed s - (n_step_adjustment w - 1))"
proof -
  let ?m = max_timesteps_per_episode and ?e = use_exploration
  obtain n w1 and l1 :: "('s, 'a) locals" and ps b out k where
    n: "0 < n" "int n * int N < num_timesteps + int N" "num_timesteps \<le> int n * int N"
    and it: "iterate_body cb ?e ?m n (w, init_locals cb w) = Inr (w1, l1)"
    and wf1: "wf_state N n (w1, l1)"
    and asm: "for_slots N (assemble_slot cb l1)
             (store_carry (noted_time elapsed)
                (w1\<lparr>total_worker_steps := total_worker_steps w1 + timesteps_executed l1\<rparr>, l1),
              \<lparr>states = [], actions = [], rewards = [], next_states = [], terminals = []\<rparr>)
             = ((store_carry (noted_time elapsed)
                  (w1\<lparr>total_worker_steps := total_worker_steps w1 + timesteps_executed l1\<rparr>, l1))
                \<lparr>preprocessors := ps\<rparr>, b)"
    and wb: "wf_batch b" and lb: "length (states b) = N * n"
    and ps: "process_sample_if_necessary cb
             ((store_carry (noted_time elapsed)
                  (w1\<lparr>total_worker_steps := total_worker_steps w1 + timesteps_executed l1\<rparr>, l1))
                \<lparr>preprocessors := ps\<rparr>) b = Inr (out, k)"
    and ex: "execute_and_get_timesteps cb elapsed w num_timesteps ?m ?e False =
             Some (Inr ((store_carry (noted_time elapsed)
                  (w1\<lparr>total_worker_steps := total_worker_steps w1 + timesteps_executed l1\<rparr>, l1))
                \<lparr>preprocessors := ps\<rparr>,
                \<lparr>es_sample_batch = out, es_batch_size = k, es_runtime = noted_time elapsed,
                 es_timesteps_executed = int n * int N,
                 es_ops_per_second = real_of_int (int n * int N) / noted_time elapsed\<rparr>))"
    using execute_passes[OF assms, of False ?e ?m elapsed] by auto
  define w' where "w' = (store_carry (noted_time elapsed)
                  (w1\<lparr>total_worker_steps := total_worker_steps w1 + timesteps_executed l1\<rparr>, l1))
                \<lparr>preprocessors := ps\<rparr>"
  define s where "s = \<lparr>es_sample_batch = out, es_batch_size = k, es_runtime = noted_time elapsed,
                 es_timesteps_executed = int n * int N,
                 es_ops_per_second = real_of_int (int n * int N) / noted_time elapsed\<rparr>"
  have wf0: "wf_state N 0 (w, init_locals cb w :: ('s, 'a) locals)"
    using assms(2,3) by (rule wf_init_locals)
  have "n_step_adjustment w1 = n_step_adjustment w"
    using iterate_body_wf[OF assms(1) wf0, of ?e ?m n] it by auto
  then have kw: "n_step_adjustment w' = n_step_adjustment w"
    by (simp add: w'_def store_carry_def)
  have least: "int n * int N \<le> t" if d: "int N dvd t" and ge: "num_timesteps \<le> t" for t
  proof -
    obtain q where q: "t = int N * q" using d unfolding dvd_def by blast
    have "int N * (int n - 1) < int N * q" using n(2) ge q by (simp add: algebra_simps)
    then have "int n - 1 < q" using assms(4) by (simp add: mult_less_cancel_left_pos)
    then have "int n \<le> q" by simp
    then have "int N * int n \<le> int N * q" using assms(4) by (simp add: mult_left_mono)
    then show ?thesis using q by (simp add: mult.commute)
  qed
  have samples: "\<forall>i<N. length (sample_states l1 ! i) = n \<and> length (sample_actions l1 ! i) = n \<and>
                   length (sample_rewards l1 ! i) = n \<and> length (sample_terminals l1 ! i) = n"
    using wf1 by (simp add: wf_state_def wf_locals_def)
  note sz = process_sample_size[OF wb ps[folded w'_def]]
  have lb': "int (length (states b)) = int n * int N" using lb by (simp add: mult.commute)
  have a: "execute_and_get_timesteps cb elapsed w num_timesteps ?m ?e False = Some (Inr (w', s))"
    using ex by (simp add: w'_def s_def)
  have b1: "es_timesteps_executed s = int n * int N" by (simp add: s_def)
  have b2: "process_sample_if_necessary cb w' b = Inr (es_sample_batch s, es_batch_size s)"
    using ps by (simp add: w'_def s_def)
  have b3: "es_batch_size s = length (rewards (es_sample_batch s))"
    "length (states (es_sample_batch s)) = es_batch_size s"
    "length (actions (es_sample_batch s)) = es_batch_size s"
    "length (next_states (es_sample_batch s)) = es_batch_size s"
    "length (terminals (es_sample_batch s)) = es_batch_size s"
    using sz(1,2) by (simp_all add: s_def)
  have b4: "n_step_adjustment w \<le> 1 \<longrightarrow> int (es_batch_size s) = es_timesteps_executed s"
    using sz(3) kw lb' by (simp add: s_def)
  have b5: "1 < n_step_adjustment w \<and> n_step_adjustment w - 1 \<le> es_timesteps_executed s \<longrightarrow>
              int (es_batch_size s) = es_timesteps_executed s - (n_step_adjustment w - 1)"
    using sz(4) kw lb' by (auto simp: s_def)
  have b6: "snd (for_slots N (assemble_slot cb l1)
                  (store_carry (noted_time elapsed)
                     (w1\<lparr>total_worker_steps := total_worker_steps w1 + timesteps_executed l1\<rparr>, l1),
                   \<lparr>states = [], actions = [], rewards = [], next_states = [], terminals = []\<rparr>))
             = b" using asm by simp
  show ?thesis
    using a b1 b2 b3 b4 b5 b6 n least it samples wb lb'
    by (intro exI[of _ w'] exI[of _ s] exI[of _ n] exI[of _ w1] exI[of _ l1] exI[of _ b]) simp
qed

theorem collected_timesteps_witness:
  "contract (example_collab 4) 4 \<and> wf_worker (example_worker 4 None 1 False) \<and>
   num_environments (example_worker 4 None 1 False) = 4 \<and> (0::nat) < 4 \<and> (0::int) < 10 \<and>
   map_option (map_sum id (\<lambda>r. (es_timesteps_executed (snd r), es_batch_size (snd r),
                                 length (states (es_sample_batch (snd r))))))
     (execute_and_get_timesteps (example_collab 4) 1 (example_worker 4 None 1 False) 10 0 True False)
     = Some (Inr (12, 12, 12))"
proof -
  have e: "map_option (map_sum id (\<lambda>r. (es_timesteps_executed (snd r), es_batch_size (snd r),
                                 length (states (es_sample_batch (snd r))))))
     (execute_and_get_timesteps (example_collab 4) 1 (example_worker 4 None 1 False) 10 0 True False)
     = Some (Inr (12, 12, 12))"
    by (simp add: ev)
  have h: "contract (example_collab 4) 4" "wf_worker (example_worker 4 None 1 False)"
    "num_environments (example_worker 4 None 1 False) = 4" "(0::nat) < 4" "(0::int) < 10"
    by (simp_all add: contract_example wf_example_worker)
       (simp add: example_worker_def init_worker_def example_collab_def)
  from collected_timesteps [OF h, of 1 0 True] e h show ?thesis by simp
qed

subsection \<open>Episode bookkeeping\<close>




subsection \<open>Consecutive calls and one call\<close>

lemma for_slots_rel:
  assumes "\<And>i x y. R x y \<Longrightarrow> R (f i x) (g i y)" "R x y"
  shows "R (for_slots N f x) (for_slots N g y)"
  by (induction N) (simp_all add: for_slots_Suc assms)

lemma account_slot_same:
  "same_step x y \<Longrightarrow> same_step (account_slot cb m rs i x) (account_slot cb m rs i y)"
  by (cases x, cases y)
     (simp add: same_step_def same_carry_def account_slot_def split_beta Let_def)

lemma account_loop_same:
  "same_step x y \<Longrightarrow>
   same_step (for_slots N (account_slot cb m rs) x) (for_slots N (account_slot cb m rs) y)"
  by (rule for_slots_rel[where R = same_step]) (simp_all add: account_slot_same)

lemma preprocess_loop_same:
  "same_worker w w' \<Longrightarrow>
   same_worker (for_slots N (preprocess_states cb sts) w) (for_slots N (preprocess_states cb sts) w')"
  by (rule for_slots_rel[where R = same_worker])
     (simp_all add: same_worker_def preprocess_states_def split_beta Let_def)

lemma record_step_loop_carry:
  "env_states (for_slots N (record_step buf acts) l) = env_states l \<and>
   current_episode_rewards (for_slots N (record_step buf acts) l) = current_episode_rewards l \<and>
   current_episode_timesteps (for_slots N (record_step buf acts) l) = current_episode_timesteps l"
  by (rule for_slots_induct[where P = "\<lambda>k y. env_states y = env_states l \<and>
        current_episode_rewards y = current_episode_rewards l \<and>
        current_episode_timesteps y = current_episode_timesteps l"])
     (simp_all add: record_step_def)

lemma loop_body_same:
  fixes w w2 :: "('s, 'e, 'q, 'g) worker" and l l2 :: "('s, 'a) locals"
  assumes sc: "same_carry (w, l) (w2, l2)" and b: "loop_body cb explore m (w, l) = Inr x'"
  shows "\<exists>y'. loop_body cb explore m (w2, l2) = Inr y' \<and> same_step x' y'"
proof -
  define N where "N = num_environments w"
  have N2: "num_environments w2 = N" using sc by (simp add: same_carry_def N_def)
  have es: "env_states l2 = env_states l" using sc by (simp add: same_carry_def)
  have sw: "same_worker w w2" using sc by (simp add: same_carry_def same_worker_def)
  define w1 where "w1 = for_slots N (preprocess_states cb (env_states l)) w"
  define v1 where "v1 = for_slots N (preprocess_states cb (env_states l)) w2"
  have sw1: "same_worker w1 v1" unfolding w1_def v1_def using sw by (rule preprocess_loop_same)
  obtain ag' acts where ga:
    "get_action cb (agent w1) (preprocessed_states_buffer w1) explore = (ag', acts)"
    by (cases "get_action cb (agent w1) (preprocessed_states_buffer w1) explore")
  have ga2: "get_action cb (agent v1) (preprocessed_states_buffer v1) explore = (ag', acts)"
    using ga sw1 by (simp add: same_worker_def)
  define l1 where "l1 = for_slots N (record_step (preprocessed_states_buffer w1) acts) l"
  define k1 where "k1 = for_slots N (record_step (preprocessed_states_buffer v1) acts) l2"
  note c1 = record_step_loop_carry[of N "preprocessed_states_buffer w1" acts l, folded l1_def]
  note c2 = record_step_loop_carry[of N "preprocessed_states_buffer v1" acts l2, folded k1_def]
  obtain env' nxt rs ts where st: "env_step cb (vector_env w1) acts = (env', nxt, rs, ts)"
    by (cases "env_step cb (vector_env w1) acts") auto
  have st2: "env_step cb (vector_env v1) acts = (env', nxt, rs, ts)"
    using st sw1 by (simp add: same_worker_def)
  define x where "x = (w1\<lparr>agent := ag', vector_env := env'\<rparr>,
                         l1\<lparr>timesteps_executed := timesteps_executed l1 + int N,
                            env_frames := env_frames l1 + int N,
                            loop_next_states := nxt,
                            env_states := nxt,
                            loop_terminals := ts\<rparr>)"
  define y where "y = (v1\<lparr>agent := ag', vector_env := env'\<rparr>,
                         k1\<lparr>timesteps_executed := timesteps_executed k1 + int N,
                            env_frames := env_frames k1 + int N,
                            loop_next_states := nxt,
                            env_states := nxt,
                            loop_terminals := ts\<rparr>)"
  have g: "\<not> length (env_states l) < N" "\<not> length acts < N"
    "\<not> (length nxt < N \<or> length rs < N \<or> length ts < N)"
    and bx: "x' = for_slots N (account_slot cb m rs) x"
    using b
    by (simp_all add: loop_body_def Let_def N_def[symmetric] w1_def[symmetric] ga
          l1_def[symmetric] st x_def split: if_splits)
  have by2: "loop_body cb explore m (w2, l2) = Inr (for_slots N (account_slot cb m rs) y)"
    using g
    by (simp add: loop_body_def Let_def N2 es v1_def[symmetric] ga2 k1_def[symmetric] st2 y_def)
  have "same_step x y"
    using sw1 c1 c2 sc
    by (simp add: same_step_def same_carry_def same_worker_def x_def y_def)
  then have "same_step x' (for_slots N (account_slot cb m rs) y)"
    unfolding bx by (rule account_loop_same)
  then show ?thesis using by2 by blast
qed

lemma same_step_carry: "same_step x y \<Longrightarrow> same_carry x y"
  by (simp add: same_step_def)

lemma iterate_body_same:
  assumes "same_carry x y" "iterate_body cb explore m (Suc n) x = Inr x'"
  shows "\<exists>y'. iterate_body cb explore m (Suc n) y = Inr y' \<and> same_step x' y'"
  using assms
proof (induction n arbitrary: x y)
  case 0
  obtain x1 where x1: "loop_body cb explore m x = Inr x1"
    using 0(2) by (cases "loop_body cb explore m x") auto
  obtain y1 where "loop_body cb explore m y = Inr y1" "same_step x1 y1"
    using loop_body_same[of "fst x" "snd x" "fst y" "snd y" cb explore m x1] 0(1) x1 by auto
  then show ?case using 0(2) x1 by auto
next
  case (Suc n)
  obtain x1 where x1: "loop_body cb explore m x = Inr x1"
    using Suc.prems(2) by (cases "loop_body cb explore m x") auto
  obtain y1 where y1: "loop_body cb explore m y = Inr y1" "same_step x1 y1"
    using loop_body_same[of "fst x" "snd x" "fst y" "snd y" cb explore m x1] Suc.prems(1) x1 by auto
  have "iterate_body cb explore m (Suc n) x1 = Inr x'" using Suc.prems(2) x1 by simp
  from Suc.IH[OF same_step_carry[OF y1(2)] this] obtain y' where
    "iterate_body cb explore m (Suc n) y1 = Inr y'" "same_step x' y'" by blast
  then show ?case using y1(1) by auto
qed

lemma calm_preprocess: "calm cb p \<Longrightarrow> fst (preprocess_slot cb p s) = p"
  by (cases p) (auto simp: calm_def preprocess_slot_def split_beta)

lemma calm_reset: "calm cb p \<Longrightarrow> calm cb (map_option (preprocessor_reset cb) p)"
  by (auto simp: calm_def)

lemma calm_update:
  assumes "\<forall>p\<in>set ps. calm cb p" "i < length ps \<longrightarrow> calm cb v"
  shows "\<forall>p\<in>set (ps[i := v]). calm cb p"
proof (cases "i < length ps")
  case True
  then show ?thesis using assms set_update_subset_insert[of ps i v] by auto
next
  case False
  then show ?thesis using assms by (simp add: list_update_beyond)
qed

lemma preprocess_states_calm:
  "calm_all cb w \<Longrightarrow> calm_all cb (preprocess_states cb sts i w)"
  unfolding calm_all_def preprocess_states_def
  by (simp add: split_beta Let_def) (rule calm_update, simp_all add: calm_preprocess)

lemma account_slot_calm:
  assumes "calm_all cb (fst y)"
  shows "calm_all cb (fst (account_slot cb m rs i y))"
proof -
  obtain w l where y: "y = (w, l)" by (cases y)
  have "preprocessors (fst (account_slot cb m rs i (w, l))) = preprocessors w \<or>
        preprocessors (fst (account_slot cb m rs i (w, l))) =
          (preprocessors w)[i := map_option (preprocessor_reset cb) (preprocessors w ! i)]"
    by (simp add: account_slot_def split_beta Let_def)
  moreover have "\<forall>p\<in>set ((preprocessors w)[i := map_option (preprocessor_reset cb) (preprocessors w ! i)]).
      calm cb p"
    using assms by (intro calm_update) (simp_all add: calm_all_def y calm_reset)
  ultimately show ?thesis using assms by (auto simp: calm_all_def y)
qed

lemma loop_body_calm:
  fixes w :: "('s, 'e, 'q, 'g) worker" and l :: "('s, 'a) locals"
  assumes "calm_all cb w" "loop_body cb explore m (w, l) = Inr x'"
  shows "calm_all cb (fst x')"
proof -
  define N where "N = num_environments w"
  define w1 where "w1 = for_slots N (preprocess_states cb (env_states l)) w"
  have c1: "calm_all cb w1" unfolding w1_def
    by (rule for_slots_induct[where P = "\<lambda>k y. calm_all cb y"])
       (simp_all add: assms(1) preprocess_states_calm)
  obtain ag' acts where ga:
    "get_action cb (agent w1) (preprocessed_states_buffer w1) explore = (ag', acts)"
    by (cases "get_action cb (agent w1) (preprocessed_states_buffer w1) explore")
  define l1 where "l1 = for_slots N (record_step (preprocessed_states_buffer w1) acts) l"
  obtain env' nxt rs ts where st: "env_step cb (vector_env w1) acts = (env', nxt, rs, ts)"
    by (cases "env_step cb (vector_env w1) acts") auto
  define x where "x = (w1\<lparr>agent := ag', vector_env := env'\<rparr>,
                         l1\<lparr>timesteps_executed := timesteps_executed l1 + int N,
                            env_frames := env_frames l1 + int N,
                            loop_next_states := nxt,
                            env_states := nxt,
                            loop_terminals := ts\<rparr>)"
  have bx: "x' = for_slots N (account_slot cb m rs) x"
    using assms(2)
    by (simp add: loop_body_def Let_def N_def[symmetric] w1_def[symmetric] ga
          l1_def[symmetric] st x_def split: if_splits)
  have cx: "calm_all cb (fst x)" using c1 by (simp add: x_def calm_all_def)
  show ?thesis unfolding bx
    by (rule for_slots_induct[where P = "\<lambda>k y. calm_all cb (fst y)"])
       (simp_all add: cx account_slot_calm)
qed

lemma iterate_body_calm:
  assumes "calm_all cb (fst x)" "iterate_body cb explore m n x = Inr x'"
  shows "calm_all cb (fst x')"
  using assms
proof (induction n arbitrary: x)
  case 0
  then show ?case by simp
next
  case (Suc n)
  obtain x1 where x1: "loop_body cb explore m x = Inr x1"
    using Suc.prems(2) by (cases "loop_body cb explore m x") auto
  have "calm_all cb (fst x1)"
    using loop_body_calm[of cb "fst x" explore m "snd x" x1] Suc.prems(1) x1 by simp
  then show ?case using Suc.IH[of x1] Suc.prems(2) x1 by simp
qed

lemma assemble_calm:
  fixes w2 :: "('s, 'e, 'q, 'g) worker" and l :: "('s, 'a) locals"
  assumes "calm_all cb w2"
  shows "fst (for_slots N (assemble_slot cb l) (w2, b0)) = w2"
proof (rule for_slots_induct[where P = "\<lambda>k y. fst y = w2"])
  show "fst (w2, b0) = w2" by simp
next
  fix i and y :: "('s, 'e, 'q, 'g) worker \<times> ('s, 'a) batch"
  assume "i < N" and y: "fst y = w2"
  obtain b where yy: "y = (w2, b)" using y by (cases y) simp
  have "(preprocessors w2)[i := fst (preprocess_slot cb (preprocessors w2 ! i) s)] = preprocessors w2"
    for s
  proof (cases "i < length (preprocessors w2)")
    case True
    then have "calm cb (preprocessors w2 ! i)" using assms by (simp add: calm_all_def)
    then show ?thesis by (simp add: calm_preprocess)
  next
    case False
    then show ?thesis by (simp add: list_update_beyond)
  qed
  then show "fst (assemble_slot cb l i y) = w2"
    by (simp add: yy assemble_slot_def split_beta Let_def)
qed

lemma store_carry_resume:
  fixes w1 :: "('s, 'e, 'q, 'g) worker" and l1 :: "('s, 'a) locals"
  assumes "wf_state N n (w1, l1)"
  shows "wf_worker (store_carry tt (w1\<lparr>total_worker_steps := t\<rparr>, l1))"
    and "num_environments (store_carry tt (w1\<lparr>total_worker_steps := t\<rparr>, l1)) = N"
    and "same_carry (w1, l1)
           (store_carry tt (w1\<lparr>total_worker_steps := t\<rparr>, l1),
            init_locals cb (store_carry tt (w1\<lparr>total_worker_steps := t\<rparr>, l1)) :: ('s, 'a) locals)"
  using assms
  by (simp_all add: wf_state_def wf_worker_def wf_locals_def store_carry_def same_carry_def
        init_locals_def)

lemma passes_ceil:
  assumes "0 < N" "num \<le> int n * int N" "int n * int N < num + int N"
  shows "int n * int N = int N * ((num + int N - 1) div int N)"
proof -
  have "(num + int N - 1) div int N = int n"
  proof (rule int_div_pos_eq)
    show "num + int N - 1 = int N * int n + (num + int N - 1 - int N * int n)" by simp
    show "0 \<le> num + int N - 1 - int N * int n" using assms(3) by (simp add: algebra_simps)
    show "num + int N - 1 - int N * int n < int N" using assms(2) by (simp add: algebra_simps)
  qed
  then show ?thesis by (simp add: mult.commute)
qed

lemma execute_passes_calm:
  fixes w :: "('s, 'e, 'q, 'g) worker"
  assumes c: "contract cb N" and ww: "wf_worker w" and N: "num_environments w = N" "0 < N"
    and num: "0 < num" and calm: "calm_all cb w"
  shows "\<exists>n w1 (l1 :: ('s, 'a) locals) s.
           0 < n \<and> int n * int N < num + int N \<and>
           (\<not> break_on_terminal \<longrightarrow> num \<le> int n * int N) \<and>
           iterate_body cb explore m n (w, init_locals cb w) = Inr (w1, l1) \<and>
           wf_state N n (w1, l1) \<and> es_timesteps_executed s = int n * int N \<and>
           execute_and_get_timesteps cb elapsed w num m explore break_on_terminal =
             Some (Inr (store_carry (noted_time elapsed)
                          (w1\<lparr>total_worker_steps := total_worker_steps w1 + timesteps_executed l1\<rparr>,
                           l1), s))"
proof -
  obtain n w1 and l1 :: "('s, 'a) locals" and ps b out k where
    n: "0 < n" "int n * int N < num + int N" "\<not> break_on_terminal \<longrightarrow> num \<le> int n * int N"
    and it: "iterate_body cb explore m n (w, init_locals cb w) = Inr (w1, l1)"
    and wf1: "wf_state N n (w1, l1)"
    and asm: "for_slots N (assemble_slot cb l1)
             (store_carry (noted_time elapsed)
                (w1\<lparr>total_worker_steps := total_worker_steps w1 + timesteps_executed l1\<rparr>, l1),
              \<lparr>states = [], actions = [], rewards = [], next_states = [], terminals = []\<rparr>)
             = ((store_carry (noted_time elapsed)
                  (w1\<lparr>total_worker_steps := total_worker_steps w1 + timesteps_executed l1\<rparr>, l1))
                \<lparr>preprocessors := ps\<rparr>, b)"
    and ex: "execute_and_get_timesteps cb elapsed w num m explore break_on_terminal =
             Some (Inr ((store_carry (noted_time elapsed)
                  (w1\<lparr>total_worker_steps := total_worker_steps w1 + timesteps_executed l1\<rparr>, l1))
                \<lparr>preprocessors := ps\<rparr>,
                \<lparr>es_sample_batch = out, es_batch_size = k, es_runtime = noted_time elapsed,
                 es_timesteps_executed = int n * int N,
                 es_ops_per_second = real_of_int (int n * int N) / noted_time elapsed\<rparr>))"
    using execute_passes[OF c ww N num, of break_on_terminal explore m elapsed] by blast
  define w2 where "w2 = store_carry (noted_time elapsed)
     (w1\<lparr>total_worker_steps := total_worker_steps w1 + timesteps_executed l1\<rparr>, l1)"
  have "calm_all cb w1" using iterate_body_calm[OF _ it] calm by simp
  then have c2: "calm_all cb w2" by (simp add: w2_def store_carry_def calm_all_def)
  have "w2\<lparr>preprocessors := ps\<rparr> = w2"
    using assemble_calm[OF c2, of N l1
        "\<lparr>states = [], actions = [], rewards = [], next_states = [], terminals = []\<rparr>"]
      asm[folded w2_def]
    by simp
  then have "execute_and_get_timesteps cb elapsed w num m explore break_on_terminal =
             Some (Inr (w2,
                \<lparr>es_sample_batch = out, es_batch_size = k, es_runtime = noted_time elapsed,
                 es_timesteps_executed = int n * int N,
                 es_ops_per_second = real_of_int (int n * int N) / noted_time elapsed\<rparr>))"
    using ex[folded w2_def] by simp
  then show ?thesis using n it wf1 unfolding w2_def
    by (intro exI[of _ n] exI[of _ w1] exI[of _ l1]
          exI[of _ "\<lparr>es_sample_batch = out, es_batch_size = k, es_runtime = noted_time elapsed,
                 es_timesteps_executed = int n * int N,
                 es_ops_per_second = real_of_int (int n * int N) / noted_time elapsed\<rparr>"]) simp
qed

text \<open>
  C8, as stated, fails: a budget that is no multiple of the slot count is overshot, and
  two calls overshoot twice. Two slots, budgets 1 and 1: each call makes one pass of the
  loop, so the two calls leave running lengths of 2, one call with the budget 2 leaves 1.
\<close>

theorem resumability_counterexample:
  "map_option (map_sum id (carry_state \<circ> fst))
     (execute_and_get_timesteps (example_collab 2) 1 (example_worker 2 None 1 False) (1 + 1) 0
        True False)
   = Some (Inr ([101, 201], [1, 2], [1, 1], [False, False])) \<and>
   map_option (map_sum id (carry_state \<circ> fst))
     (execute_twice (example_collab 2) 1 1 (example_worker 2 None 1 False) 1 1 0 True False)
   = Some (Inr ([102, 202], [2, 4], [2, 2], [False, False])) \<and>
   map_option (map_sum id (carry_state \<circ> fst))
     (execute_twice (example_collab 2) 1 1 (example_worker 2 None 1 False) 1 1 0 True False)
   \<noteq> map_option (map_sum id (carry_state \<circ> fst))
     (execute_and_get_timesteps (example_collab 2) 1 (example_worker 2 None 1 False) (1 + 1) 0
        True False)"
proof -
  have e1: "map_option (map_sum id (carry_state \<circ> fst))
     (execute_and_get_timesteps (example_collab 2) 1 (example_worker 2 None 1 False) (1 + 1) 0
        True False)
   = Some (Inr ([101, 201], [1, 2], [1, 1], [False, False]))"
    by (simp add: ev carry_state_def replicate_2)
  have e2: "map_option (map_sum id (carry_state \<circ> fst))
     (execute_twice (example_collab 2) 1 1 (example_worker 2 None 1 False) 1 1 0 True False)
   = Some (Inr ([102, 202], [2, 4], [2, 2], [False, False]))"
    by (simp add: ev execute_twice_def carry_state_def replicate_2)
  show ?thesis unfolding e1 e2 by simp
qed

text \<open>
  C8, amended: for a worker of \<open>N \<ge> 1\<close> slots, positive budgets \<open>a\<close> and \<open>b\<close>
  and preprocessors that are absent or keep no memory, a call with the budget \<open>a\<close>
  followed by a call with the budget \<open>b\<close> returns, as does one call with the budget
  \<open>a + b\<close>, whatever \<open>break_on_terminal\<close> is. Whenever the two calls together have
  executed as many timesteps as the one call, both leave the same carry state (last states,
  running rewards, running lengths, last terminals) and the same finalized episode
  records. With \<open>break_on_terminal\<close> false a call with the budget \<open>x\<close> executes
  \<open>N * \<lceil>x / N\<rceil>\<close> timesteps, so the two calls execute as many as the one exactly when
  \<open>\<lceil>a / N\<rceil> + \<lceil>b / N\<rceil> = \<lceil>(a + b) / N\<rceil>\<close>.
\<close>

theorem resumable_when_passes_add_up:
  fixes w :: "('s, 'e, 'q, 'g) worker"
  assumes c: "contract cb N" and ww: "wf_worker w" and N: "num_environments w = N" "0 < N"
    and a: "0 < a" and b: "0 < b"
    and pre: "(\<forall>q s. fst (preprocess cb q s) = q) \<or> (\<forall>p\<in>set (preprocessors w). p = None)"
  shows "\<exists>w1 s w2 s1 s2.
           execute_and_get_timesteps cb elapsed w (a + b) max_timesteps_per_episode
             use_exploration break_on_terminal = Some (Inr (w1, s)) \<and>
           execute_twice cb elapsed1 elapsed2 w a b max_timesteps_per_episode
             use_exploration break_on_terminal = Some (Inr (w2, s1, s2)) \<and>
           (es_timesteps_executed s1 + es_timesteps_executed s2 = es_timesteps_executed s \<longrightarrow>
              carry_state w2 = carry_state w1 \<and> episode_records w2 = episode_records w1) \<and>
           (\<not> break_on_terminal \<longrightarrow>
              es_timesteps_executed s1 = int N * ((a + int N - 1) div int N) \<and>
              es_timesteps_executed s2 = int N * ((b + int N - 1) div int N) \<and>
              es_timesteps_executed s = int N * ((a + b + int N - 1) div int N)) \<and>
           (\<not> break_on_terminal \<and>
            (a + int N - 1) div int N + (b + int N - 1) div int N = (a + b + int N - 1) div int N
            \<longrightarrow> carry_state w2 = carry_state w1 \<and> episode_records w2 = episode_records w1)"
proof -
  let ?m = max_timesteps_per_episode and ?e = use_exploration and ?brk = break_on_terminal
  have calm: "calm_all cb w" using pre by (auto simp: calm_all_def calm_def)
  \<comment> \<open>the first call\<close>
  obtain na wa and la :: "('s, 'a) locals" and sa where
    na: "0 < na" "int na * int N < a + int N" "\<not> ?brk \<longrightarrow> a \<le> int na * int N"
    and ita: "iterate_body cb ?e ?m na (w, init_locals cb w) = Inr (wa, la)"
    and wfa: "wf_state N na (wa, la)" and tsa: "es_timesteps_executed sa = int na * int N"
    and exa: "execute_and_get_timesteps cb elapsed1 w a ?m ?e ?brk =
       Some (Inr (store_carry (noted_time elapsed1)
          (wa\<lparr>total_worker_steps := total_worker_steps wa + timesteps_executed la\<rparr>, la), sa))"
    using execute_passes_calm[OF c ww N a calm, of ?brk ?e ?m elapsed1] by blast
  define w3 where "w3 = store_carry (noted_time elapsed1)
          (wa\<lparr>total_worker_steps := total_worker_steps wa + timesteps_executed la\<rparr>, la)"
  have w3: "wf_worker w3" "num_environments w3 = N"
    and sc: "same_carry (wa, la) (w3, init_locals cb w3 :: ('s, 'a) locals)"
    unfolding w3_def using store_carry_resume[OF wfa] by blast+
  have "calm_all cb wa" using iterate_body_calm[OF _ ita] calm by simp
  then have calm3: "calm_all cb w3" by (simp add: w3_def store_carry_def calm_all_def)
  \<comment> \<open>the second call\<close>
  obtain nb wb and lb :: "('s, 'a) locals" and sb where
    nb: "0 < nb" "int nb * int N < b + int N" "\<not> ?brk \<longrightarrow> b \<le> int nb * int N"
    and itb: "iterate_body cb ?e ?m nb (w3, init_locals cb w3) = Inr (wb, lb)"
    and tsb: "es_timesteps_executed sb = int nb * int N"
    and exb: "execute_and_get_timesteps cb elapsed2 w3 b ?m ?e ?brk =
       Some (Inr (store_carry (noted_time elapsed2)
          (wb\<lparr>total_worker_steps := total_worker_steps wb + timesteps_executed lb\<rparr>, lb), sb))"
    using execute_passes_calm[OF c w3 N(2) b calm3, of ?brk ?e ?m elapsed2] by blast
  \<comment> \<open>the single call\<close>
  have ab: "0 < a + b" using a b by simp
  obtain nc wc and lc :: "('s, 'a) locals" and sc' where
    nc: "0 < nc" "int nc * int N < a + b + int N" "\<not> ?brk \<longrightarrow> a + b \<le> int nc * int N"
    and itc: "iterate_body cb ?e ?m nc (w, init_locals cb w) = Inr (wc, lc)"
    and tsc: "es_timesteps_executed sc' = int nc * int N"
    and exc: "execute_and_get_timesteps cb elapsed w (a + b) ?m ?e ?brk =
       Some (Inr (store_carry (noted_time elapsed)
          (wc\<lparr>total_worker_steps := total_worker_steps wc + timesteps_executed lc\<rparr>, lc), sc'))"
    using execute_passes_calm[OF c ww N ab calm, of ?brk ?e ?m elapsed] by blast
  define W1 where "W1 = store_carry (noted_time elapsed)
          (wc\<lparr>total_worker_steps := total_worker_steps wc + timesteps_executed lc\<rparr>, lc)"
  define W2 where "W2 = store_carry (noted_time elapsed2)
          (wb\<lparr>total_worker_steps := total_worker_steps wb + timesteps_executed lb\<rparr>, lb)"
  have two: "execute_twice cb elapsed1 elapsed2 w a b ?m ?e ?brk = Some (Inr (W2, sa, sb))"
    using exa exb by (simp add: execute_twice_def w3_def[symmetric] W2_def)
  have one: "execute_and_get_timesteps cb elapsed w (a + b) ?m ?e ?brk = Some (Inr (W1, sc'))"
    using exc by (simp add: W1_def)
  \<comment> \<open>when the passes add up\<close>
  have eq: "carry_state W2 = carry_state W1 \<and> episode_records W2 = episode_records W1"
    if add: "es_timesteps_executed sa + es_timesteps_executed sb = es_timesteps_executed sc'"
  proof -
    have "int (na + nb) * int N = int nc * int N"
      using add tsa tsb tsc by (simp add: algebra_simps)
    then have nc_eq: "nc = na + nb" using N(2) by simp
    have "iterate_body cb ?e ?m nb (wa, la) = Inr (wc, lc)"
      using itc ita by (simp add: nc_eq iterate_body_add)
    moreover obtain k where k: "nb = Suc k" using nb(1) by (cases nb) simp_all
    ultimately obtain y' where y': "iterate_body cb ?e ?m nb (w3, init_locals cb w3) = Inr y'"
      "same_step (wc, lc) y'"
      using iterate_body_same[OF sc, of cb ?e ?m k "(wc, lc)"] by auto
    then have st: "same_step (wc, lc) (wb, lb)" using itb by simp
    then show ?thesis
      by (simp add: W1_def W2_def carry_state_def episode_records_def store_carry_def
            same_step_def same_carry_def)
  qed
  have ceil: "es_timesteps_executed sa = int N * ((a + int N - 1) div int N) \<and>
              es_timesteps_executed sb = int N * ((b + int N - 1) div int N) \<and>
              es_timesteps_executed sc' = int N * ((a + b + int N - 1) div int N)"
    if nbrk: "\<not> ?brk"
    using passes_ceil[OF N(2), of a na] passes_ceil[OF N(2), of b nb]
      passes_ceil[OF N(2), of "a + b" nc] na nb nc nbrk tsa tsb tsc
    by simp
  have eq': "carry_state W2 = carry_state W1 \<and> episode_records W2 = episode_records W1"
    if nbrk: "\<not> ?brk"
      and sum: "(a + int N - 1) div int N + (b + int N - 1) div int N
                = (a + b + int N - 1) div int N"
  proof (rule eq)
    have "es_timesteps_executed sa + es_timesteps_executed sb
          = int N * ((a + int N - 1) div int N + (b + int N - 1) div int N)"
      using ceil[OF nbrk] by (simp add: distrib_left)
    then show "es_timesteps_executed sa + es_timesteps_executed sb = es_timesteps_executed sc'"
      using ceil[OF nbrk] sum by simp
  qed
  show ?thesis
    apply (rule exI[of _ W1], rule exI[of _ sc'], rule exI[of _ W2], rule exI[of _ sa],
           rule exI[of _ sb])
    using one two eq ceil eq' by blast
qed

theorem resumable_when_passes_add_up_witness:
  "contract (example_collab 3) 3 \<and> wf_worker (example_worker 3 None 1 False) \<and>
   num_environments (example_worker 3 None 1 False) = 3 \<and> (0::nat) < 3 \<and>
   (0::int) < 2 \<and> (0::int) < 5 \<and>
   preprocessors (example_worker 3 None 1 False) = [None, None, None] \<and>
   ((2::int) + int 3 - 1) div int 3 + (5 + int 3 - 1) div int 3 = (2 + 5 + int 3 - 1) div int 3 \<and>
   map_option (map_sum id (\<lambda>r. (carry_state (fst r), episode_records (fst r),
                                 es_timesteps_executed (snd r))))
     (execute_and_get_timesteps (example_collab 3) 1 (example_worker 3 None 1 False) (2 + 5) 0
        True False)
   = Some (Inr (([100, 203, 303], [0, 6, 9], [0, 3, 3], [True, False, False]),
                ([[3], [], []], [[3], [], []]), 9)) \<and>
   map_option (map_sum id (\<lambda>r. (carry_state (fst r), episode_records (fst r),
                                 es_timesteps_executed (fst (snd r)),
                                 es_timesteps_executed (snd (snd r)))))
     (execute_twice (example_collab 3) 1 1 (example_worker 3 None 1 False) 2 5 0 True False)
   = Some (Inr (([100, 203, 303], [0, 6, 9], [0, 3, 3], [True, False, False]),
                ([[3], [], []], [[3], [], []]), 3, 6))"
proof -
  have h: "contract (example_collab 3) 3" "wf_worker (example_worker 3 None 1 False)"
    "num_environments (example_worker 3 None 1 False) = 3" "(0::nat) < 3"
    "(0::int) < 2" "(0::int) < 5"
    "(\<forall>q s. fst (preprocess (example_collab 3) q s) = q) \<or>
     (\<forall>p\<in>set (preprocessors (example_worker 3 None 1 False)). p = None)"
    by (simp_all add: contract_example wf_example_worker)
       (simp_all add: example_worker_def init_worker_def example_collab_def)
  have p: "preprocessors (example_worker 3 None 1 False) = [None, None, None]"
    by (simp add: example_worker_def init_worker_def example_collab_def replicate_3)
  have d: "((2::int) + int 3 - 1) div int 3 + (5 + int 3 - 1) div int 3
           = (2 + 5 + int 3 - 1) div int 3"
    by simp
  have e1: "map_option (map_sum id (\<lambda>r. (carry_state (fst r), episode_records (fst r),
                                 es_timesteps_executed (snd r))))
     (execute_and_get_timesteps (example_collab 3) 1 (example_worker 3 None 1 False) (2 + 5) 0
        True False)
   = Some (Inr (([100, 203, 303], [0, 6, 9], [0, 3, 3], [True, False, False]),
                ([[3], [], []], [[3], [], []]), 9))"
    by (simp add: ev carry_state_def episode_records_def replicate_3)
  have e2: "map_option (map_sum id (\<lambda>r. (carry_state (fst r), episode_records (fst r),
                                 es_timesteps_executed (fst (snd r)),
                                 es_timesteps_executed (snd (snd r)))))
     (execute_twice (example_collab 3) 1 1 (example_worker 3 None 1 False) 2 5 0 True False)
   = Some (Inr (([100, 203, 303], [0, 6, 9], [0, 3, 3], [True, False, False]),
                ([[3], [], []], [[3], [], []]), 3, 6))"
    by (simp add: ev execute_twice_def carry_state_def episode_records_def replicate_3)
  from resumable_when_passes_add_up [OF h, of 1 0 True False 1 1] e1 e2 p d h(1-6)
  show ?thesis by simp
qed

text \<open>
  Why the preprocessors have to be absent or without memory: the end of a call sends the
  state of every slot that is not terminal through its preprocessor once more, so a
  preprocessor with a memory is one call further after two calls than after one. One
  slot, budgets 1 and 1: the two calls make two passes of the loop, as the one call with
  the budget 2 does, and the carry states differ.
\<close>

lemmas ev2 = execute_and_get_timesteps_def noted_time_def collect_loop.simps loop_body_def init_locals_def
  memory_worker_def memory_collab_def init_worker_def for_slots_def preprocess_states_def
  preprocess_slot_def record_step_def account_slot_def break_now_def store_carry_def
  assemble_slot_def process_sample_if_necessary_def n_step_adjuster_def with_weights_def
  del_from_def index_def assign_def Let_def upt_conv_Cons

lemma preprocessor_memory_at_the_cut:
  "map_option (map_sum id (carry_state \<circ> fst))
     (execute_and_get_timesteps memory_collab 1 memory_worker (1 + 1) 0 True False)
   = Some (Inr ([1], [1], [2], [False])) \<and>
   map_option (map_sum id (carry_state \<circ> fst))
     (execute_twice memory_collab 1 1 memory_worker 1 1 0 True False)
   = Some (Inr ([2], [2], [2], [False]))"
  by (simp add: ev2 execute_twice_def carry_state_def)

end
